theory Spec2Isabelle
  imports Complex_Main "HOL-Library.Sublist" "HOL-Library.AList" "HOL-Library.List_Lexorder"
    "HOL-Library.Char_ord"
begin

section \<open>Text helpers of the host language\<close>

text \<open>
  Template literals and \<^verbatim>\<open>String(n)\<close> render an integer in decimal, with a minus sign when
  it is negative. \<^verbatim>\<open>toUpperCase\<close> and \<^verbatim>\<open>toLowerCase\<close> are modelled on ASCII text, which
  is what the fixed vocabularies of the retry executor and of the mapper consist of;
  \<^verbatim>\<open>s.includes(part)\<close> is the contiguous substring test.
\<close>

definition digitChar :: "nat \<Rightarrow> char" where
  "digitChar d = char_of (48 + d)"

fun showNat :: "nat \<Rightarrow> string" where
  "showNat n = (if n < 10 then [digitChar n] else showNat (n div 10) @ [digitChar (n mod 10)])"

declare showNat.simps [simp del]

definition showInt :: "int \<Rightarrow> string" where
  "showInt i = (if i < 0 then CHR ''-'' # showNat (nat (- i)) else showNat (nat i))"

definition toUpperChar :: "char \<Rightarrow> char" where
  "toUpperChar c =
     (let n = (of_char c :: nat) in if 97 \<le> n \<and> n \<le> 122 then char_of (n - 32) else c)"

definition toUpperCase :: "string \<Rightarrow> string" where
  "toUpperCase s = map toUpperChar s"

definition includesText :: "string \<Rightarrow> string \<Rightarrow> bool" where
  "includesText s part = sublist part s"

definition toLowerChar :: "char \<Rightarrow> char" where
  "toLowerChar c =
     (let n = (of_char c :: nat) in if 65 \<le> n \<and> n \<le> 90 then char_of (n + 32) else c)"

definition toLowerCase :: "string \<Rightarrow> string" where
  "toLowerCase s = map toLowerChar s"

text \<open>
  \<^verbatim>\<open>\d\<close> matches an ASCII digit. \<^verbatim>\<open>trim\<close> removes white space at both ends; the
  ASCII white space characters are modelled. \<^verbatim>\<open>String(n).padStart(2, '0')\<close> is \<open>pad2\<close>.
\<close>

definition isDigit :: "char \<Rightarrow> bool" where
  "isDigit c = (48 \<le> (of_char c :: nat) \<and> (of_char c :: nat) \<le> 57)"

definition isSpace :: "char \<Rightarrow> bool" where
  "isSpace c = ((of_char c :: nat) \<in> {9, 10, 11, 12, 13, 32})"

definition trim :: "string \<Rightarrow> string" where
  "trim s = rev (dropWhile isSpace (rev (dropWhile isSpace s)))"

definition digitVal :: "char \<Rightarrow> nat" where
  "digitVal c = of_char c - 48"

definition parseNat :: "string \<Rightarrow> nat" where
  "parseNat s = foldl (\<lambda>acc c. 10 * acc + digitVal c) 0 s"

definition pad2 :: "nat \<Rightarrow> string" where
  "pad2 n = (let s = showNat n in if length s < 2 then CHR ''0'' # s else s)"

section \<open>Schema and value mapper: column sets\<close>

text \<open>
  \<^verbatim>\<open>RecordMapper.mergeColumns(existingColumns, newFields)\<close> copies the existing columns
  and walks the new fields in order, pushing each one that the result does not hold yet.
  The loop body is \<open>mergeStep\<close>; the loop is a left fold over \<open>newFields\<close>.
\<close>

definition mergeStep :: "string list \<Rightarrow> string \<Rightarrow> string list" where
  "mergeStep result field = (if field \<in> set result then result else result @ [field])"

definition mergeColumns :: "string list \<Rightarrow> string list \<Rightarrow> string list" where
  "mergeColumns existingColumns newFields = foldl mergeStep existingColumns newFields"

text \<open>
  The appended part, said without the loop: the new fields that are not existing columns,
  each kept at its first occurrence.
\<close>

definition appended :: "string list \<Rightarrow> string list \<Rightarrow> string list" where
  "appended existingColumns newFields =
     rev (remdups (rev (filter (\<lambda>f. f \<notin> set existingColumns) newFields)))"

section \<open>Schema and value mapper: row ranges\<close>

text \<open>
  \<^verbatim>\<open>groupConsecutiveRanges(numbers)\<close> is the same in every version of the mapper. Row
  positions are integers. \<^verbatim>\<open>[...numbers].sort((a, b) => b - a)\<close> puts them in descending
  order; on integers that list is unique, so it is the ascending sort reversed. The
  \<^verbatim>\<open>for\<close> loop over \<^verbatim>\<open>sorted[1..]\<close> is \<open>groupLoop\<close>, with the loop variables
  \<^verbatim>\<open>start\<close>, \<^verbatim>\<open>end\<close> and \<^verbatim>\<open>ranges\<close> as arguments; the source pushes
  \<^verbatim>\<open>{ start: end, end: start }\<close>, since its \<^verbatim>\<open>end\<close> is the smallest row of the run.
\<close>

record SheetRange =
  range_start :: int
  range_end :: int

definition sortDescending :: "int list \<Rightarrow> int list" where
  "sortDescending numbers = rev (sort numbers)"

fun groupLoop :: "int \<Rightarrow> int \<Rightarrow> int list \<Rightarrow> SheetRange list \<Rightarrow> SheetRange list" where
  "groupLoop s e [] ranges = ranges @ [\<lparr>range_start = e, range_end = s\<rparr>]"
| "groupLoop s e (x # rest) ranges =
     (if x = e - 1 then groupLoop s x rest ranges
      else groupLoop x x rest (ranges @ [\<lparr>range_start = e, range_end = s\<rparr>]))"

definition groupConsecutiveRanges :: "int list \<Rightarrow> SheetRange list" where
  "groupConsecutiveRanges numbers =
     (if length numbers = 0 then []
      else case sortDescending numbers of
             [] \<Rightarrow> []
           | first # rest \<Rightarrow> groupLoop first first rest [])"

text \<open>The rows a range covers, and the two orderings the ranges of one result are judged by,
  each over every pair of list positions \<open>i < j\<close>.\<close>

definition rowsOf :: "SheetRange \<Rightarrow> int set" where
  "rowsOf r = {range_start r .. range_end r}"

definition pairwise_disjoint :: "SheetRange list \<Rightarrow> bool" where
  "pairwise_disjoint rs = sorted_wrt (\<lambda>a b. rowsOf a \<inter> rowsOf b = {}) rs"

definition descending :: "SheetRange list \<Rightarrow> bool" where
  "descending rs = sorted_wrt (\<lambda>a b. range_end b < range_start a) rs"

section \<open>Schema and value mapper: date normalisation\<close>

text \<open>
  \<^verbatim>\<open>normalizeDate\<close> first tests the trimmed text against
  \<^verbatim>\<open>/^\d{4}-\d{2}-\d{2}$/\<close> (\<open>canonicalShape\<close>) and then relies on the \<^verbatim>\<open>Date\<close> object
  of the host. \<open>fieldsOf\<close> reads the three numbers of a text of that shape. A calendar date
  has a month of \<open>1..12\<close> and a day that the month has in that year.
\<close>

record ymd =
  year :: int
  month :: nat
  day :: nat

definition canonicalShape :: "string \<Rightarrow> bool" where
  "canonicalShape s =
     (length s = 10 \<and> list_all isDigit (take 4 s) \<and> s ! 4 = CHR ''-'' \<and>
      list_all isDigit (take 2 (drop 5 s)) \<and> s ! 7 = CHR ''-'' \<and>
      list_all isDigit (drop 8 s))"

definition fieldsOf :: "string \<Rightarrow> ymd" where
  "fieldsOf s = \<lparr>year = int (parseNat (take 4 s)), month = parseNat (take 2 (drop 5 s)),
                 day = parseNat (drop 8 s)\<rparr>"

definition isLeapYear :: "int \<Rightarrow> bool" where
  "isLeapYear y = (y mod 4 = 0 \<and> (y mod 100 \<noteq> 0 \<or> y mod 400 = 0))"

definition daysInMonth :: "int \<Rightarrow> nat \<Rightarrow> nat" where
  "daysInMonth y m =
     (if m = 2 then (if isLeapYear y then 29 else 28)
      else if m = 4 \<or> m = 6 \<or> m = 9 \<or> m = 11 then 30 else 31)"

definition calendarDate :: "ymd \<Rightarrow> bool" where
  "calendarDate d =
     (1 \<le> month d \<and> month d \<le> 12 \<and> 1 \<le> day d \<and> day d \<le> daysInMonth (year d) (month d))"

text \<open>
  The \<^verbatim>\<open>Date\<close> of the host is not code of this repository; it is modelled as far as the
  language standard fixes it, with the rest as parameters of a \<open>host\<close>:
  \<^item> For the date-only form \<^verbatim>\<open>YYYY-MM-DD\<close> and for that form followed by
    \<^verbatim>\<open>T00:00:00.000Z\<close> (the text \<^verbatim>\<open>normalizeDate\<close> builds), \<^verbatim>\<open>new Date(s)\<close> is valid
    exactly when month and day are legal (\<open>isoFields\<close>, \<open>isoLegal\<close>). Hosts differ on days
    \<open>29..31\<close> of a shorter month: V8 (Node) accepts every day \<open>01..31\<close> and rolls over, others
    reject. \<open>lenientDays\<close> tells which.
  \<^item> For every other text the host decides whether the date is valid (\<open>otherValid\<close>).
  \<^item> \<open>localFields\<close> is what \<^verbatim>\<open>getFullYear()\<close>, \<^verbatim>\<open>getMonth() + 1\<close> and
    \<^verbatim>\<open>getDate()\<close> return for \<^verbatim>\<open>new Date(s)\<close>; it depends on the time zone of the host
    and is only read when the date is valid.
  \<open>dateValid h s\<close> is \<^verbatim>\<open>!isNaN(new Date(s).getTime())\<close>.
\<close>

record host =
  lenientDays :: bool
  otherValid :: "string \<Rightarrow> bool"
  localFields :: "string \<Rightarrow> ymd"

definition isoFields :: "string \<Rightarrow> ymd option" where
  "isoFields s =
     (if canonicalShape s then Some (fieldsOf s)
      else if canonicalShape (take 10 s) \<and> drop 10 s = ''T00:00:00.000Z''
      then Some (fieldsOf (take 10 s))
      else None)"

definition isoLegal :: "host \<Rightarrow> ymd \<Rightarrow> bool" where
  "isoLegal h d =
     (1 \<le> month d \<and> month d \<le> 12 \<and> 1 \<le> day d \<and>
      day d \<le> (if lenientDays h then 31 else daysInMonth (year d) (month d)))"

definition dateValid :: "host \<Rightarrow> string \<Rightarrow> bool" where
  "dateValid h s = (case isoFields s of Some d \<Rightarrow> isoLegal h d | None \<Rightarrow> otherValid h s)"

text \<open>
  \<^verbatim>\<open>normalizeDate(dateString)\<close>, as in both mapper versions that have the canonical-shape
  test. The year is interpolated as it is; month and day are padded to two digits.
\<close>

definition formatYMD :: "ymd \<Rightarrow> string" where
  "formatYMD d = showInt (year d) @ ''-'' @ pad2 (month d) @ ''-'' @ pad2 (day d)"

definition normalizeDate :: "host \<Rightarrow> string \<Rightarrow> string" where
  "normalizeDate h dateString =
     (if dateString = [] then []
      else let cleaned = trim dateString in
        if canonicalShape cleaned \<and> dateValid h (cleaned @ ''T00:00:00.000Z'') then cleaned
        else if \<not> dateValid h cleaned then []
        else formatYMD (localFields h cleaned))"

text \<open>
  A host for the examples. It lists what Node's \<^verbatim>\<open>Date\<close> answers for the two texts the
  examples read beyond the ISO forms above: \<^verbatim>\<open>0099-01-01T12:00:00\<close> is an ISO date-time in
  local time, in the year 99; \<^verbatim>\<open>99-01-01\<close> is not an ISO form, and the fallback parser
  of V8 reads a two-digit year \<open>50..99\<close> as \<open>19xx\<close>. Every other text is an invalid date for
  this host.
\<close>

definition nodeHost :: host where
  "nodeHost = \<lparr>lenientDays = True,
     otherValid = (\<lambda>s. s = ''0099-01-01T12:00:00'' \<or> s = ''99-01-01''),
     localFields = (\<lambda>s. if s = ''0099-01-01T12:00:00'' then \<lparr>year = 99, month = 1, day = 1\<rparr>
                         else if s = ''99-01-01'' then \<lparr>year = 1999, month = 1, day = 1\<rparr>
                         else \<lparr>year = 1970, month = 1, day = 1\<rparr>)\<rparr>"

section \<open>Schema and value mapper: records and cells\<close>

text \<open>
  An input record is a parsed JSON object: its keys in the order \<^verbatim>\<open>Object.keys\<close> gives
  them, each with a JSON value. \<^verbatim>\<open>record[column]\<close> is \<open>map_of record column\<close>, with
  \<open>None\<close> for \<^verbatim>\<open>undefined\<close>. A cell of the sheet holds text, a number or a boolean.
  \<^verbatim>\<open>String(v)\<close> on a value other than a string and \<^verbatim>\<open>JSON.stringify(v)\<close> are host
  functions, taken as parameters (\<open>texts\<close>). A mapper is its list of date field names
  together with the host.
\<close>

datatype json = JNull | JBool bool | JNum real | JStr string | JArr "json list"
  | JObj "(string \<times> json) list"

type_synonym jsRecord = "(string \<times> json) list"

datatype cell = CText string | CNumber real | CBoolean bool

record texts =
  stringOf :: "json \<Rightarrow> string"
  stringify :: "json \<Rightarrow> string"

fun String :: "texts \<Rightarrow> json \<Rightarrow> string" where
  "String t (JStr s) = s"
| "String t v = stringOf t v"

fun truthy :: "json option \<Rightarrow> bool" where
  "truthy None = False"
| "truthy (Some JNull) = False"
| "truthy (Some (JBool b)) = b"
| "truthy (Some (JNum n)) = (n \<noteq> 0)"
| "truthy (Some (JStr s)) = (s \<noteq> [])"
| "truthy (Some (JArr xs)) = True"
| "truthy (Some (JObj kvs)) = True"

record mapper =
  dateFields :: "string list"
  dateHost :: host
  textHost :: texts

text \<open>
  The methods of \<^verbatim>\<open>RecordMapper\<close>. A \<^verbatim>\<open>Set\<close> keeps insertion order, so it is a list
  without repetition and \<^verbatim>\<open>add\<close> is \<open>setAdd\<close>. \<^verbatim>\<open>getRecordDate\<close> returns the text of
  the first date field whose value is truthy; the mapper version that only knows the field
  \<^verbatim>\<open>date\<close> is the one with \<open>dateFields = ["date"]\<close>. \<^verbatim>\<open>rowsToRecords\<close> skips the header
  row and every row whose cells are all blank, and numbers the rows from 1 as the sheet
  does; assigning \<^verbatim>\<open>record[header]\<close> twice keeps the position of the key and the later
  value, which is \<open>AList.update\<close>.
\<close>

definition setAdd :: "string list \<Rightarrow> string \<Rightarrow> string list" where
  "setAdd seen key = (if key \<in> set seen then seen else seen @ [key])"

definition collectAllFields :: "jsRecord list \<Rightarrow> string list" where
  "collectAllFields records =
     foldl (\<lambda>seen record.
              foldl (\<lambda>seen key. if key \<noteq> ''__rowNumber'' then setAdd seen key else seen)
                    seen (map fst record))
           [] records"

definition isDateField :: "mapper \<Rightarrow> string \<Rightarrow> bool" where
  "isDateField m columnName = (toLowerCase columnName \<in> set (dateFields m))"

fun processFieldValue :: "mapper \<Rightarrow> json option \<Rightarrow> string \<Rightarrow> cell" where
  "processFieldValue m None columnName = CText []"
| "processFieldValue m (Some JNull) columnName = CText []"
| "processFieldValue m (Some v) columnName =
     (if v = JStr [] then CText []
      else if isDateField m columnName then
        (let normalized = normalizeDate (dateHost m) (String (textHost m) v)
         in if normalized \<noteq> [] then CText normalized else CText (String (textHost m) v))
      else case v of
             JArr xs \<Rightarrow> CText (stringify (textHost m) v)
           | JObj kvs \<Rightarrow> CText (stringify (textHost m) v)
           | JNum n \<Rightarrow> CNumber n
           | JBool b \<Rightarrow> CBoolean b
           | _ \<Rightarrow> CText (String (textHost m) v))"

definition recordsToRows :: "mapper \<Rightarrow> jsRecord list \<Rightarrow> string list \<Rightarrow> cell list list" where
  "recordsToRows m records columns =
     map (\<lambda>record. map (\<lambda>column. processFieldValue m (map_of record column) column) columns) records"

fun getRecordDateLoop :: "mapper \<Rightarrow> string list \<Rightarrow> jsRecord \<Rightarrow> string" where
  "getRecordDateLoop m [] record = []"
| "getRecordDateLoop m (field # rest) record =
     (if truthy (map_of record field)
      then (case map_of record field of Some v \<Rightarrow> String (textHost m) v | None \<Rightarrow> [])
      else getRecordDateLoop m rest record)"

definition getRecordDate :: "mapper \<Rightarrow> jsRecord \<Rightarrow> string" where
  "getRecordDate m record = getRecordDateLoop m (dateFields m) record"

definition extractDatesFromRecords :: "mapper \<Rightarrow> jsRecord list \<Rightarrow> string list" where
  "extractDatesFromRecords m records =
     sort (foldl (\<lambda>found record.
                    let date = getRecordDate m record in
                    if date \<noteq> [] then
                      (let normalizedDate = normalizeDate (dateHost m) date
                       in if normalizedDate \<noteq> [] then setAdd found normalizedDate else found)
                    else found)
                 [] records)"

record ProcessedRecord =
  data :: jsRecord
  rowNumber :: nat

definition isBlank :: "string \<Rightarrow> bool" where
  "isBlank cell = (cell = [] \<or> trim cell = [])"

definition cellAt :: "string list \<Rightarrow> nat \<Rightarrow> string" where
  "cellAt row index = (if index < length row then row ! index else [])"

definition stripApostrophe :: "string \<Rightarrow> string" where
  "stripApostrophe cellValue =
     (case cellValue of c # rest \<Rightarrow> if c = CHR 0x27 then rest else cellValue | [] \<Rightarrow> cellValue)"

definition rowToRecord :: "string list \<Rightarrow> string list \<Rightarrow> jsRecord" where
  "rowToRecord headers row =
     foldl (\<lambda>record (header, index). AList.update header (JStr (stripApostrophe (cellAt row index))) record)
           [] (zip headers [0 ..< length headers])"

fun rowsToRecordsFrom :: "nat \<Rightarrow> string list list \<Rightarrow> string list \<Rightarrow> ProcessedRecord list" where
  "rowsToRecordsFrom i [] headers = []"
| "rowsToRecordsFrom i (row # rest) headers =
     (if list_all isBlank row then rowsToRecordsFrom (i + 1) rest headers
      else \<lparr>data = rowToRecord headers row, rowNumber = i + 1\<rparr> # rowsToRecordsFrom (i + 1) rest headers)"

definition rowsToRecords :: "string list list \<Rightarrow> string list \<Rightarrow> ProcessedRecord list" where
  "rowsToRecords rows headers = rowsToRecordsFrom 1 (drop 1 rows) headers"

definition findDateColumnIndices :: "mapper \<Rightarrow> string list \<Rightarrow> nat list" where
  "findDateColumnIndices m columns =
     map snd (filter (\<lambda>(column, index). isDateField m column) (zip columns [0 ..< length columns]))"

section \<open>Retry executor\<close>

text \<open>
  Delays are JavaScript numbers; they are modelled as exact reals, so rounding of binary
  floating point is not part of the model. \<^verbatim>\<open>Math.random()\<close> is the argument
  \<open>random\<close>, a number in \<open>[0, 1)\<close>. \<^verbatim>\<open>attempt\<close> is the 0-based number of the retry.
\<close>

record RetryConfig =
  maxRetries :: int
  baseDelay :: real
  maxDelay :: real

definition DEFAULT_RETRY_CONFIG :: RetryConfig where
  "DEFAULT_RETRY_CONFIG = \<lparr>maxRetries = 3, baseDelay = 1000, maxDelay = 10000\<rparr>"

definition calculateRetryDelay :: "real \<Rightarrow> nat \<Rightarrow> RetryConfig \<Rightarrow> real" where
  "calculateRetryDelay random attempt config =
     (let exponentialDelay = min (baseDelay config * 2 ^ attempt) (maxDelay config);
          jitter = exponentialDelay * 0.25 * (random * 2 - 1)
      in max (baseDelay config) (exponentialDelay + jitter))"

text \<open>
  A failure of the wrapped call is an object with the three properties \<^verbatim>\<open>shouldRetry\<close>
  reads; \<^verbatim>\<open>code\<close> and \<^verbatim>\<open>status\<close> hold a number (HTTP) or a string (network
  errors), \<^verbatim>\<open>message\<close> a string, and each may be absent. \<^verbatim>\<open>x && list.includes(x)\<close>
  compares with strict equality, so a numeric list only matches numbers.
  The \<^verbatim>\<open>if (error.message)\<close> branch returns, so the network codes are looked at only when the
  message is absent or empty.
\<close>

datatype jsval = NumV int | StrV string

record apiError =
  code :: "jsval option"
  status :: "jsval option"
  message :: "string option"

definition retryableErrors :: "string list" where
  "retryableErrors = [''RATE_LIMIT_EXCEEDED'', ''QUOTA_EXCEEDED'', ''INTERNAL_ERROR'',
     ''BACKEND_ERROR'', ''SERVICE_UNAVAILABLE'', ''TIMEOUT'']"

definition retryableHttpCodes :: "int list" where
  "retryableHttpCodes = [429, 500, 502, 503, 504]"

definition networkErrorCodes :: "string list" where
  "networkErrorCodes = [''ECONNRESET'', ''ETIMEDOUT'', ''ENOTFOUND'', ''EAI_AGAIN'']"

fun isRetryableHttpCode :: "jsval option \<Rightarrow> bool" where
  "isRetryableHttpCode (Some (NumV n)) = (n \<in> set retryableHttpCodes)"
| "isRetryableHttpCode _ = False"

fun isNetworkErrorCode :: "jsval option \<Rightarrow> bool" where
  "isNetworkErrorCode (Some (StrV s)) = (s \<in> set networkErrorCodes)"
| "isNetworkErrorCode _ = False"

definition shouldRetry :: "apiError \<Rightarrow> bool" where
  "shouldRetry error =
     (if isRetryableHttpCode (code error) then True
      else if isRetryableHttpCode (status error) then True
      else case message error of
        Some m \<Rightarrow>
          if m \<noteq> [] then list_ex (\<lambda>retryable. includesText (toUpperCase m) retryable) retryableErrors
          else isNetworkErrorCode (code error)
      | None \<Rightarrow> isNetworkErrorCode (code error))"

text \<open>
  \<^verbatim>\<open>retryOperation\<close>: the wrapped operation is given by the outcome of each of its calls,
  \<open>operation i\<close> for the call made in iteration \<open>attempt = i\<close>. The loop
  \<^verbatim>\<open>for (attempt = 0; attempt <= config.maxRetries; attempt++)\<close> is \<open>retryLoop\<close>; it returns
  on success, breaks with \<^verbatim>\<open>lastError\<close> set, or runs out. The second component counts the
  calls of the operation. Sleeping before a retry only passes time and is left out. After the
  loop the source throws a new \<^verbatim>\<open>Error\<close> whose text is built from
  \<^verbatim>\<open>lastError.message\<close>; when the loop body never ran, \<^verbatim>\<open>lastError\<close> is undefined and
  reading its message is a \<^verbatim>\<open>TypeError\<close>. What a function throws is a value of type
  \<open>thrown\<close>. (An operation that throws \<^verbatim>\<open>null\<close> or \<^verbatim>\<open>undefined\<close> is outside the
  model.)
\<close>

datatype thrown = Error string | TypeError

function retryLoop ::
  "RetryConfig \<Rightarrow> (nat \<Rightarrow> apiError + 'a) \<Rightarrow> nat \<Rightarrow> apiError option \<Rightarrow> (apiError option + 'a) \<times> nat"
where
  "retryLoop config operation attempt lastError =
     (if int attempt \<le> maxRetries config then
        (case operation attempt of
           Inr v \<Rightarrow> (Inr v, Suc attempt)
         | Inl error \<Rightarrow>
             if \<not> shouldRetry error \<or> int attempt \<ge> maxRetries config
             then (Inl (Some error), Suc attempt)
             else retryLoop config operation (Suc attempt) (Some error))
      else (Inl lastError, attempt))"
  by pat_completeness auto
termination
  by (relation "measure (\<lambda>(config, operation, attempt, lastError). nat (maxRetries config + 1 - int attempt))") auto

declare retryLoop.simps [simp del]

definition failureMessage :: "RetryConfig \<Rightarrow> apiError \<Rightarrow> string" where
  "failureMessage config lastError =
     ''Operation failed after '' @ showInt (maxRetries config + 1) @ '' attempts. Last error: '' @
     (case message lastError of Some m \<Rightarrow> m | None \<Rightarrow> ''undefined'')"

definition retryOperation :: "RetryConfig \<Rightarrow> (nat \<Rightarrow> apiError + 'a) \<Rightarrow> (thrown + 'a) \<times> nat" where
  "retryOperation config operation =
     (case retryLoop config operation 0 None of
        (Inr v, calls) \<Rightarrow> (Inr v, calls)
      | (Inl (Some lastError), calls) \<Rightarrow> (Inl (Error (failureMessage config lastError)), calls)
      | (Inl None, calls) \<Rightarrow> (Inl TypeError, calls))"

section \<open>Reconciliation engine and lock manager\<close>

text \<open>
  \<^verbatim>\<open>GoogleSheetsWriter\<close> acts on two things outside the process: the lock file and the
  sheet behind the \<^verbatim>\<open>SheetService\<close>. The lock file is a slot that is empty or holds the
  file's modification time and content. Every file operation and every call of a
  \<^verbatim>\<open>SheetService\<close> method is recorded, in order, in the \<open>trace\<close> of the world.
\<close>

record lockData =
  pid :: nat
  timestamp :: int
  sheet :: string

type_synonym lockSlot = "(int \<times> lockData) option"

text \<open>
  The effects: the four file operations on the lock file, and the methods of
  \<^verbatim>\<open>SheetService\<close> the writer calls, with their arguments. \<^verbatim>\<open>getAllData\<close> and
  \<^verbatim>\<open>getAvailableRows\<close> only read; the other six change the sheet.
\<close>

datatype effect =
    LockAccess | LockStat | LockUnlink | LockWriteFile lockData
  | GetAllData
  | ReplaceAllData "cell list list" nat
  | FormatDateColumns "nat list"
  | DeleteRows "SheetRange list"
  | AddColumns "string list" nat
  | GetAvailableRows
  | AddRowsToSheet nat
  | AppendRows "cell list list" string

fun isLockEffect :: "effect \<Rightarrow> bool" where
  "isLockEffect LockAccess = True"
| "isLockEffect LockStat = True"
| "isLockEffect LockUnlink = True"
| "isLockEffect (LockWriteFile d) = True"
| "isLockEffect _ = False"

fun isMutatingCall :: "effect \<Rightarrow> bool" where
  "isMutatingCall (ReplaceAllData grid n) = True"
| "isMutatingCall (FormatDateColumns idx) = True"
| "isMutatingCall (DeleteRows ranges) = True"
| "isMutatingCall (AddColumns cols n) = True"
| "isMutatingCall (AddRowsToSheet n) = True"
| "isMutatingCall (AppendRows grid opt) = True"
| "isMutatingCall _ = False"

record world =
  lockSlot :: lockSlot
  trace :: "effect list"

record WriteStats =
  totalRecords :: int
  newRecords :: int
  updatedRecords :: int
  deletedRecords :: int
  newColumns :: "string list"

text \<open>
  A writer is the configuration read in the constructor (mapper, flags, lock file name)
  together with what the environment answers during one run: the clock, the process id, the
  outcome of reading the input file, the snapshot \<^verbatim>\<open>getAllData\<close> returns, the row count
  \<^verbatim>\<open>getAvailableRows\<close> returns, and for each mutating call whether it fails after its
  retries (\<open>remoteFails\<close>). An action takes the world and returns what it threw or returned,
  with the world after it; \<open>andThen\<close> sequences two actions as \<^verbatim>\<open>await\<close> does,
  \<open>tryFinally\<close> is \<^verbatim>\<open>try { ... } finally { ... }\<close>, \<open>whenever\<close> is an \<^verbatim>\<open>if\<close>
  without \<^verbatim>\<open>else\<close>.
\<close>

record writer =
  mapperOf :: mapper
  fullRefresh :: bool
  dryRun :: bool
  lockFile :: string
  sheetName :: string
  processPid :: nat
  now :: int
  loadData :: "thrown + jsRecord list"
  snapshot :: "thrown + string list list"
  availableRows :: nat
  remoteFails :: "effect \<Rightarrow> thrown option"

type_synonym 'a action = "world \<Rightarrow> (thrown + 'a) \<times> world"

definition emit :: "effect \<Rightarrow> world \<Rightarrow> world" where
  "emit e w = w\<lparr>trace := trace w @ [e]\<rparr>"

definition andThen :: "'a action \<Rightarrow> ('a \<Rightarrow> 'b action) \<Rightarrow> 'b action" where
  "andThen first next w =
     (case first w of (Inl e, w') \<Rightarrow> (Inl e, w') | (Inr v, w') \<Rightarrow> next v w')"

definition succeed :: "'a \<Rightarrow> 'a action" where
  "succeed v w = (Inr v, w)"

definition throw :: "thrown \<Rightarrow> 'a action" where
  "throw e w = (Inl e, w)"

definition whenever :: "bool \<Rightarrow> unit action \<Rightarrow> unit action" where
  "whenever cond act = (if cond then act else succeed ())"

definition tryFinally :: "'a action \<Rightarrow> (world \<Rightarrow> world) \<Rightarrow> 'a action" where
  "tryFinally body cleanup w = (case body w of (r, w') \<Rightarrow> (r, cleanup w'))"

text \<open>
  The \<^verbatim>\<open>SheetService\<close> methods, as the writer sees them. \<^verbatim>\<open>getAllData\<close>,
  \<^verbatim>\<open>replaceAllData\<close>, \<^verbatim>\<open>addColumns\<close> and \<^verbatim>\<open>appendRows\<close> let the failure of their
  request through; \<^verbatim>\<open>deleteRows\<close>, \<^verbatim>\<open>formatDateColumns\<close>, \<^verbatim>\<open>addRowsToSheet\<close> and
  \<^verbatim>\<open>getAvailableRows\<close> catch it and log, so they never throw.
\<close>

definition fallible :: "writer \<Rightarrow> effect \<Rightarrow> unit action" where
  "fallible wr call w =
     ((case remoteFails wr call of None \<Rightarrow> Inr () | Some e \<Rightarrow> Inl e), emit call w)"

definition advisory :: "effect \<Rightarrow> unit action" where
  "advisory call w = (Inr (), emit call w)"

definition getAllData :: "writer \<Rightarrow> (string list list) action" where
  "getAllData wr w = (snapshot wr, emit GetAllData w)"

definition getAvailableRows :: "writer \<Rightarrow> nat action" where
  "getAvailableRows wr w = (Inr (availableRows wr), emit GetAvailableRows w)"

definition replaceAllData :: "writer \<Rightarrow> cell list list \<Rightarrow> nat \<Rightarrow> unit action" where
  "replaceAllData wr grid columnCount = fallible wr (ReplaceAllData grid columnCount)"

definition formatDateColumns :: "nat list \<Rightarrow> unit action" where
  "formatDateColumns dateColumnIndices = advisory (FormatDateColumns dateColumnIndices)"

definition deleteRows :: "SheetRange list \<Rightarrow> unit action" where
  "deleteRows rowRanges = advisory (DeleteRows rowRanges)"

definition addColumns :: "writer \<Rightarrow> string list \<Rightarrow> nat \<Rightarrow> unit action" where
  "addColumns wr cols startColumn = fallible wr (AddColumns cols startColumn)"

definition addRowsToSheet :: "nat \<Rightarrow> unit action" where
  "addRowsToSheet rowsToAdd = advisory (AddRowsToSheet rowsToAdd)"

definition appendRows :: "writer \<Rightarrow> cell list list \<Rightarrow> string \<Rightarrow> unit action" where
  "appendRows wr grid valueInputOption = fallible wr (AppendRows grid valueInputOption)"

text \<open>
  \<^verbatim>\<open>acquireLock\<close>: \<^verbatim>\<open>fs.access\<close> on a missing file throws \<^verbatim>\<open>ENOENT\<close>, which the
  \<^verbatim>\<open>catch\<close> swallows; on an existing file the age is \<^verbatim>\<open>Date.now() - mtime\<close>, a stale
  file is unlinked, and for a fresh one the contention error is thrown (it has no
  \<^verbatim>\<open>code\<close>, so the \<^verbatim>\<open>catch\<close> rethrows it). \<^verbatim>\<open>Math.round(lockAge / 1000)\<close> rounds
  half up. Then the new lock file is written. \<^verbatim>\<open>releaseLock\<close> unlinks and never throws.
\<close>

definition contentionMessage :: "int \<Rightarrow> string \<Rightarrow> string" where
  "contentionMessage lockAge file =
     ''Another writer process is running (lock age: '' @ showInt ((lockAge + 500) div 1000) @
     ''s). Please wait or remove '' @ file"

definition writeLock :: "writer \<Rightarrow> unit action" where
  "writeLock wr w =
     (let lockData = \<lparr>pid = processPid wr, timestamp = now wr, sheet = sheetName wr\<rparr>
      in (Inr (), emit (LockWriteFile lockData) (w\<lparr>lockSlot := Some (now wr, lockData)\<rparr>)))"

definition acquireLock :: "writer \<Rightarrow> unit action" where
  "acquireLock wr w =
     (case lockSlot w of
        None \<Rightarrow> writeLock wr (emit LockAccess w)
      | Some (mtime, held) \<Rightarrow>
          (let lockAge = now wr - mtime
           in if lockAge > 30 * 60 * 1000
              then writeLock wr
                     (emit LockUnlink (emit LockStat (emit LockAccess w))\<lparr>lockSlot := None\<rparr>)
              else (Inl (Error (contentionMessage lockAge (lockFile wr))),
                    emit LockStat (emit LockAccess w))))"

definition releaseLock :: "world \<Rightarrow> world" where
  "releaseLock w = (emit LockUnlink w)\<lparr>lockSlot := None\<rparr>"

text \<open>
  \<^verbatim>\<open>performFullRefresh\<close>, \<^verbatim>\<open>findRowsToDelete\<close>, \<^verbatim>\<open>performIncrementalUpdate\<close> and
  \<^verbatim>\<open>writeData\<close>, statement by statement. The text of the error for an empty batch starts
  with a cross mark, three bytes in UTF-8.
\<close>

definition performFullRefresh :: "writer \<Rightarrow> jsRecord list \<Rightarrow> WriteStats action" where
  "performFullRefresh wr incoming =
     (let allColumns = collectAllFields incoming;
          dataRows = recordsToRows (mapperOf wr) incoming allColumns;
          allData = map CText allColumns # dataRows
      in andThen
           (whenever (\<not> dryRun wr)
              (andThen (replaceAllData wr allData (length allColumns)) (\<lambda>_.
                 let dateColumnIndices = findDateColumnIndices (mapperOf wr) allColumns
                 in if length dateColumnIndices > 0 then formatDateColumns dateColumnIndices
                    else succeed ())))
           (\<lambda>_. succeed \<lparr>totalRecords = int (length incoming), newRecords = int (length incoming),
                       updatedRecords = 0, deletedRecords = 0, newColumns = allColumns\<rparr>))"

definition findRowsToDelete :: "mapper \<Rightarrow> ProcessedRecord list \<Rightarrow> string list \<Rightarrow> int list" where
  "findRowsToDelete m existingRecords datesToUpdate =
     sortDescending
       (map (\<lambda>record. int (rowNumber record))
          (filter (\<lambda>record.
                     normalizeDate (dateHost m) (getRecordDate m (data record)) \<in> set datesToUpdate
                     \<and> rowNumber record \<noteq> 0)
                  existingRecords))"

definition noDataMessage :: string where
  "noDataMessage = [CHR 0xE2, CHR 0x9D, CHR 0x8C] @ '' No data to write''"

definition performIncrementalUpdate :: "writer \<Rightarrow> jsRecord list \<Rightarrow> WriteStats action" where
  "performIncrementalUpdate wr incoming =
     andThen (getAllData wr) (\<lambda>existingData.
       if length existingData = 0 then performFullRefresh wr incoming
       else
         let existingHeaders = hd existingData;
             existingRecords = rowsToRecords existingData existingHeaders;
             datesToUpdate = extractDatesFromRecords (mapperOf wr) incoming;
             rowsToDelete = findRowsToDelete (mapperOf wr) existingRecords datesToUpdate;
             deletedCount = (if length rowsToDelete > 0 then int (length rowsToDelete) else 0);
             newFields = collectAllFields incoming;
             finalColumns = mergeColumns existingHeaders newFields;
             addedColumns = filter (\<lambda>col. col \<notin> set existingHeaders) finalColumns;
             currentDataRows = int (length existingRecords) - deletedCount;
             requiredRows = currentDataRows + int (length incoming) + 1
         in
         andThen
           (whenever (length rowsToDelete > 0 \<and> \<not> dryRun wr)
              (deleteRows (groupConsecutiveRanges rowsToDelete))) (\<lambda>_.
         andThen
           (whenever (length addedColumns > 0 \<and> \<not> dryRun wr)
              (addColumns wr addedColumns (length existingHeaders))) (\<lambda>_.
         andThen
           (whenever (\<not> dryRun wr)
              (andThen (getAvailableRows wr) (\<lambda>available.
                 if requiredRows > int available \<or> available = 0 then addRowsToSheet 5000
                 else succeed ()))) (\<lambda>_.
         andThen
           (whenever (length incoming > 0 \<and> \<not> dryRun wr)
              (andThen
                 (appendRows wr (recordsToRows (mapperOf wr) incoming finalColumns) ''USER_ENTERED'')
                 (\<lambda>_. let dateColumnIndices = findDateColumnIndices (mapperOf wr) finalColumns
                      in if length dateColumnIndices > 0 then formatDateColumns dateColumnIndices
                         else succeed ()))) (\<lambda>_.
         succeed \<lparr>totalRecords = currentDataRows + int (length incoming),
                newRecords = int (length incoming), updatedRecords = 0,
                deletedRecords = deletedCount, newColumns = addedColumns\<rparr>)))))"

definition writeBody :: "writer \<Rightarrow> WriteStats action" where
  "writeBody wr =
     andThen (\<lambda>w. (loadData wr, w)) (\<lambda>incoming.
       if length incoming = 0 then throw (Error noDataMessage)
       else if fullRefresh wr then performFullRefresh wr incoming
       else performIncrementalUpdate wr incoming)"

definition writeData :: "writer \<Rightarrow> WriteStats action" where
  "writeData wr =
     andThen (whenever (\<not> dryRun wr) (acquireLock wr)) (\<lambda>_.
       tryFinally (writeBody wr) (\<lambda>w. if dryRun wr then w else releaseLock w))"

text \<open>A mapper and a writer for the examples.\<close>

definition sampleMapper :: mapper where
  "sampleMapper = \<lparr>dateFields = [''date'', ''date_start'', ''day'', ''date_stop''],
     dateHost = nodeHost,
     textHost = \<lparr>stringOf = (\<lambda>v. ''?''), stringify = (\<lambda>v. ''?'')\<rparr>\<rparr>"

definition sampleWriter :: writer where
  "sampleWriter = \<lparr>mapperOf = sampleMapper, fullRefresh = False, dryRun = False,
     lockFile = ''.writer-lock-S-T'', sheetName = ''T'', processPid = 7, now = 2400000,
     loadData = Inr [[(''date'', JStr ''2024-01-01''), (''clicks'', JNum 3)]],
     snapshot = Inr [[''date'', ''spend''], [''2024-01-01'', ''5''], [''2024-01-02'', ''6''],
                     [''2024-01-01'', ''7'']],
     availableRows = 1000, remoteFails = (\<lambda>c. None)\<rparr>"

text \<open>
  For stating the properties: the effects a run added to the trace; the statistics of a
  full refresh; the statistics an incremental update plans from a snapshot, without any
  call; whether the lock can be acquired (no lock file, or a stale one); and the outcome of
  a dry run, which depends on the input and the snapshot only.
\<close>

definition newEffects :: "world \<Rightarrow> world \<Rightarrow> effect list" where
  "newEffects before after = drop (length (trace before)) (trace after)"

definition fullRefreshStats :: "jsRecord list \<Rightarrow> WriteStats" where
  "fullRefreshStats incoming =
     \<lparr>totalRecords = int (length incoming), newRecords = int (length incoming),
      updatedRecords = 0, deletedRecords = 0, newColumns = collectAllFields incoming\<rparr>"

definition plannedStats :: "mapper \<Rightarrow> jsRecord list \<Rightarrow> string list list \<Rightarrow> WriteStats" where
  "plannedStats m incoming existingData =
     (if length existingData = 0 then fullRefreshStats incoming
      else
        let existingHeaders = hd existingData;
            existingRecords = rowsToRecords existingData existingHeaders;
            rowsToDelete = findRowsToDelete m existingRecords (extractDatesFromRecords m incoming);
            deletedCount = int (length rowsToDelete);
            finalColumns = mergeColumns existingHeaders (collectAllFields incoming)
        in \<lparr>totalRecords = int (length existingRecords) - deletedCount + int (length incoming),
            newRecords = int (length incoming), updatedRecords = 0,
            deletedRecords = deletedCount,
            newColumns = filter (\<lambda>col. col \<notin> set existingHeaders) finalColumns\<rparr>)"

definition acquirable :: "writer \<Rightarrow> world \<Rightarrow> bool" where
  "acquirable wr w =
     (case lockSlot w of None \<Rightarrow> True | Some (mtime, held) \<Rightarrow> now wr - mtime > 30 * 60 * 1000)"

definition dryRunOutcome :: "writer \<Rightarrow> thrown + WriteStats" where
  "dryRunOutcome wr =
     (case loadData wr of
        Inl e \<Rightarrow> Inl e
      | Inr incoming \<Rightarrow>
          if length incoming = 0 then Inl (Error noDataMessage)
          else if fullRefresh wr then Inr (fullRefreshStats incoming)
          else case snapshot wr of
                 Inl e \<Rightarrow> Inl e
               | Inr g \<Rightarrow> Inr (plannedStats (mapperOf wr) incoming g))"

definition sampleBatch :: "jsRecord list" where
  "sampleBatch = [[(''date'', JStr ''2024-01-01''), (''clicks'', JNum 3)]]"

definition heldLock :: lockData where
  "heldLock = \<lparr>pid = 3, timestamp = 0, sheet = ''T''\<rparr>"

section \<open>Properties of mergeColumns\<close>

lemma remdups_snoc: "remdups (ys @ [f]) = remdups (filter (\<lambda>g. g \<noteq> f) ys) @ [f]"
  by (induction ys) auto

lemma foldl_mergeStep_appended:
  "foldl mergeStep acc fs = acc @ rev (remdups (rev (filter (\<lambda>f. f \<notin> set acc) fs)))"
proof (induction fs arbitrary: acc)
  case Nil
  show ?case by simp
next
  case (Cons f fs)
  show ?case
  proof (cases "f \<in> set acc")
    case True
    then show ?thesis using Cons.IH [of acc] by (simp add: mergeStep_def)
  next
    case False
    have eq: "filter (\<lambda>g. g \<notin> set (acc @ [f])) fs =
              filter (\<lambda>g. g \<noteq> f) (filter (\<lambda>g. g \<notin> set acc) fs)"
      by (induction fs) auto
    show ?thesis using False Cons.IH [of "acc @ [f]"]
      by (simp add: mergeStep_def remdups_snoc eq rev_filter conj_commute)
  qed
qed

text \<open>
  Claim C5, as stated, fails: the result is promised free of duplicates for every pair of
  arguments, but the existing columns are copied as they are, so a header row that repeats a
  name keeps the repetition.
\<close>

theorem mergeColumns_duplicates_counterexample:
  "\<not> distinct (mergeColumns [''a'', ''a''] [''b''])"
  by (simp add: mergeColumns_def mergeStep_def)

text \<open>
  Claim C5, amended: \<open>mergeColumns ["a","b"] ["b","c"] = ["a","b","c"]\<close>; for every pair of
  arguments the result is the existing columns, unchanged and in place, followed by the
  incoming fields that are not existing columns, each once, in the order of their first
  occurrence; the appended part has no duplicates, and the whole result has none exactly
  when the existing columns have none.
\<close>

theorem mergeColumns_amended:
  "mergeColumns [''a'', ''b''] [''b'', ''c''] = [''a'', ''b'', ''c''] \<and>
   mergeColumns existing incoming = existing @ appended existing incoming \<and>
   take (length existing) (mergeColumns existing incoming) = existing \<and>
   set (appended existing incoming) = set incoming - set existing \<and>
   distinct (appended existing incoming) \<and>
   distinct (mergeColumns existing incoming) = distinct existing"
proof -
  have ex: "mergeColumns [''a'', ''b''] [''b'', ''c''] = [''a'', ''b'', ''c'']"
    by (simp add: mergeColumns_def mergeStep_def)
  have eq: "mergeColumns existing incoming = existing @ appended existing incoming"
    by (simp add: mergeColumns_def appended_def foldl_mergeStep_appended)
  have st: "set (appended existing incoming) = set incoming - set existing"
    by (auto simp: appended_def)
  have di: "distinct (appended existing incoming)"
    by (simp add: appended_def)
  have "distinct (existing @ appended existing incoming) = distinct existing"
    using st di by auto
  with ex eq st di show ?thesis by simp
qed

section \<open>Properties of groupConsecutiveRanges\<close>

lemma groupLoop_acc: "groupLoop s e xs acc = acc @ groupLoop s e xs []"
proof (induction xs arbitrary: s e acc)
  case Nil show ?case by simp
next
  case (Cons x xs)
  show ?case
  proof (cases "x = e - 1")
    case True
    then show ?thesis using Cons.IH [of s x acc] by simp
  next
    case False
    then show ?thesis
      using Cons.IH [of x x "acc @ [\<lparr>range_start = e, range_end = s\<rparr>]"]
            Cons.IH [of x x "[\<lparr>range_start = e, range_end = s\<rparr>]"]
      by simp
  qed
qed

lemma groupLoop_rows:
  "e \<le> s \<Longrightarrow> (\<Union>r \<in> set (groupLoop s e xs []). rowsOf r) = {e..s} \<union> set xs"
proof (induction xs arbitrary: s e)
  case Nil then show ?case by (simp add: rowsOf_def)
next
  case (Cons x xs)
  show ?case
  proof (cases "x = e - 1")
    case True
    have "x \<le> s" using True Cons.prems by simp
    from Cons.IH [OF this] True Cons.prems show ?thesis by auto
  next
    case False
    have split: "groupLoop s e (x # xs) [] = \<lparr>range_start = e, range_end = s\<rparr> # groupLoop x x xs []"
      using False groupLoop_acc [of x x xs "[\<lparr>range_start = e, range_end = s\<rparr>]"] by simp
    have "(\<Union>r \<in> set (groupLoop x x xs []). rowsOf r) = {x..x} \<union> set xs"
      by (rule Cons.IH) simp
    then show ?thesis unfolding split by (auto simp: rowsOf_def)
  qed
qed

lemma groupLoop_bounds:
  "e \<le> s \<Longrightarrow> sorted_wrt (\<ge>) (e # xs) \<Longrightarrow>
   \<forall>r \<in> set (groupLoop s e xs []). range_start r \<le> range_end r \<and> range_end r \<le> s"
proof (induction xs arbitrary: s e)
  case Nil then show ?case by simp
next
  case (Cons x xs)
  show ?case
  proof (cases "x = e - 1")
    case True
    have "x \<le> s" "sorted_wrt (\<ge>) (x # xs)" using True Cons.prems by auto
    from Cons.IH [OF this] True show ?thesis by simp
  next
    case False
    have split: "groupLoop s e (x # xs) [] = \<lparr>range_start = e, range_end = s\<rparr> # groupLoop x x xs []"
      using False groupLoop_acc [of x x xs "[\<lparr>range_start = e, range_end = s\<rparr>]"] by simp
    have "x \<le> x" "sorted_wrt (\<ge>) (x # xs)" "x \<le> e" "e \<le> s" using Cons.prems by auto
    with Cons.IH [of x x] show ?thesis unfolding split by fastforce
  qed
qed

lemma groupLoop_descending:
  "e \<le> s \<Longrightarrow> sorted_wrt (>) (e # xs) \<Longrightarrow> descending (groupLoop s e xs [])"
proof (induction xs arbitrary: s e)
  case Nil then show ?case by (simp add: descending_def)
next
  case (Cons x xs)
  show ?case
  proof (cases "x = e - 1")
    case True
    have "x \<le> s" "sorted_wrt (>) (x # xs)" using True Cons.prems by auto
    from Cons.IH [OF this] True show ?thesis by simp
  next
    case False
    have split: "groupLoop s e (x # xs) [] = \<lparr>range_start = e, range_end = s\<rparr> # groupLoop x x xs []"
      using False groupLoop_acc [of x x xs "[\<lparr>range_start = e, range_end = s\<rparr>]"] by simp
    have st: "sorted_wrt (>) (x # xs)" and xe: "x < e" using Cons.prems by auto
    have "sorted_wrt (\<ge>) (x # xs)"
      by (rule sorted_wrt_mono_rel [OF _ st]) simp
    from groupLoop_bounds [OF order_refl this]
    have "\<forall>r \<in> set (groupLoop x x xs []). range_end r < e" using xe by fastforce
    moreover have "descending (groupLoop x x xs [])" using Cons.IH [of x x] st by simp
    ultimately show ?thesis unfolding split by (simp add: descending_def)
  qed
qed

lemma descending_disjoint:
  "descending rs \<Longrightarrow> pairwise_disjoint rs"
  unfolding descending_def pairwise_disjoint_def
  by (rule sorted_wrt_mono_rel) (auto simp: rowsOf_def)

lemma sortDescending_set: "set (sortDescending xs) = set xs"
  by (simp add: sortDescending_def)

lemma sortDescending_strict: "distinct xs \<Longrightarrow> sorted_wrt (>) (sortDescending xs)"
proof -
  assume "distinct xs"
  then have "sorted_wrt (<) (sort xs)" by (simp add: strict_sorted_iff)
  then show ?thesis by (simp add: sortDescending_def sorted_wrt_rev)
qed

lemma groupConsecutiveRanges_rows:
  "(\<Union>r \<in> set (groupConsecutiveRanges numbers). rowsOf r) = set numbers"
proof (cases "sortDescending numbers")
  case Nil
  then have "set numbers = {}" using sortDescending_set [of numbers] by simp
  then show ?thesis by (simp add: groupConsecutiveRanges_def)
next
  case (Cons first rest)
  then have ne: "numbers \<noteq> []" by (auto simp: sortDescending_def)
  have "(\<Union>r \<in> set (groupLoop first first rest []). rowsOf r) = {first..first} \<union> set rest"
    by (rule groupLoop_rows) simp
  also have "\<dots> = set (sortDescending numbers)" using Cons by simp
  also have "\<dots> = set numbers" by (rule sortDescending_set)
  finally show ?thesis using Cons ne by (simp add: groupConsecutiveRanges_def)
qed

lemma groupConsecutiveRanges_descending:
  assumes "distinct numbers"
  shows "descending (groupConsecutiveRanges numbers)"
proof (cases "sortDescending numbers")
  case Nil
  then show ?thesis by (simp add: groupConsecutiveRanges_def descending_def)
next
  case (Cons first rest)
  have "sorted_wrt (>) (first # rest)"
    using sortDescending_strict [OF assms] Cons by simp
  then have "descending (groupLoop first first rest [])"
    by (rule groupLoop_descending [OF order_refl])
  then show ?thesis using Cons by (simp add: groupConsecutiveRanges_def descending_def)
qed

text \<open>
  Claim C2, as stated, fails: the argument is an array, and a position that occurs twice in
  it is emitted as two equal ranges, which are not disjoint.
\<close>

theorem groupConsecutiveRanges_duplicates_counterexample:
  "\<not> pairwise_disjoint (groupConsecutiveRanges [5, 5])"
  by (simp add: groupConsecutiveRanges_def sortDescending_def pairwise_disjoint_def rowsOf_def)

text \<open>
  Claim C2, amended: \<open>groupConsecutiveRanges [5,6,7,10] = [{10,10},{5,7}]\<close>,
  \<open>groupConsecutiveRanges [] = []\<close>, for every input list the union of the returned ranges is
  exactly the set of input positions, and for every input list without repeated positions
  the returned ranges are pairwise disjoint and emitted in descending order (each range lies
  entirely below the ranges emitted before it).
\<close>

theorem groupConsecutiveRanges_amended:
  "groupConsecutiveRanges [5, 6, 7, 10] =
     [\<lparr>range_start = 10, range_end = 10\<rparr>, \<lparr>range_start = 5, range_end = 7\<rparr>] \<and>
   groupConsecutiveRanges [] = [] \<and>
   (\<Union>r \<in> set (groupConsecutiveRanges numbers). rowsOf r) = set numbers \<and>
   (distinct numbers \<longrightarrow>
      pairwise_disjoint (groupConsecutiveRanges numbers) \<and>
      descending (groupConsecutiveRanges numbers))"
proof -
  have "groupConsecutiveRanges [5, 6, 7, 10] =
     [\<lparr>range_start = 10, range_end = 10\<rparr>, \<lparr>range_start = 5, range_end = 7\<rparr>]"
    by (simp add: groupConsecutiveRanges_def sortDescending_def)
  moreover have "groupConsecutiveRanges [] = []"
    by (simp add: groupConsecutiveRanges_def)
  moreover note groupConsecutiveRanges_rows [of numbers]
  moreover have "descending (groupConsecutiveRanges numbers)" if "distinct numbers"
    using that by (rule groupConsecutiveRanges_descending)
  ultimately show ?thesis by (simp add: descending_disjoint)
qed

theorem groupConsecutiveRanges_amended_witness:
  "distinct [7, 5, 10, 6 :: int] \<and>
   groupConsecutiveRanges [7, 5, 10, 6] =
     [\<lparr>range_start = 10, range_end = 10\<rparr>, \<lparr>range_start = 5, range_end = 7\<rparr>] \<and>
   (\<Union>r \<in> set (groupConsecutiveRanges [7, 5, 10, 6]). rowsOf r) = {7, 5, 10, 6} \<and>
   pairwise_disjoint (groupConsecutiveRanges [7, 5, 10, 6]) \<and>
   descending (groupConsecutiveRanges [7, 5, 10, 6])"
proof -
  have d: "distinct [7, 5, 10, 6 :: int]" by simp
  have "groupConsecutiveRanges [7, 5, 10, 6] =
     [\<lparr>range_start = 10, range_end = 10\<rparr>, \<lparr>range_start = 5, range_end = 7\<rparr>]"
    by (simp add: groupConsecutiveRanges_def sortDescending_def)
  then show ?thesis using d groupConsecutiveRanges_amended [of "[7, 5, 10, 6]"] by simp
qed

section \<open>Properties of the retry executor\<close>

text \<open>
  Claim C1, as stated, fails: the jitter is added after the exponential delay has been capped
  by \<^verbatim>\<open>maxDelay\<close>, so a capped delay with positive jitter exceeds the cap. Here
  \<open>baseDelay \<le> maxDelay\<close>, the attempt index 4 is within \<open>[0, maxRetries]\<close>, the jitter draw is
  \<open>0.75\<close>, and the delay is 11250 against a \<^verbatim>\<open>maxDelay\<close> of 10000. Every number involved is
  exact in binary floating point too.
\<close>

theorem calculateRetryDelay_exceeds_maxDelay_counterexample:
  "baseDelay \<lparr>maxRetries = 5, baseDelay = 1000, maxDelay = 10000\<rparr>
     \<le> maxDelay \<lparr>maxRetries = 5, baseDelay = 1000, maxDelay = 10000\<rparr> \<and>
   4 \<le> maxRetries \<lparr>maxRetries = 5, baseDelay = 1000, maxDelay = 10000\<rparr> \<and>
   calculateRetryDelay (3 / 4) 4 \<lparr>maxRetries = 5, baseDelay = 1000, maxDelay = 10000\<rparr> = 11250 \<and>
   \<not> calculateRetryDelay (3 / 4) 4 \<lparr>maxRetries = 5, baseDelay = 1000, maxDelay = 10000\<rparr>
       \<le> maxDelay \<lparr>maxRetries = 5, baseDelay = 1000, maxDelay = 10000\<rparr>"
  by (simp add: calculateRetryDelay_def Let_def)

text \<open>
  Claim C1, amended: for every retry configuration with \<open>0 \<le> baseDelay \<le> maxDelay\<close>, every
  retry attempt index and every jitter outcome in \<open>[0, 1)\<close>, the delay computed by
  \<^verbatim>\<open>calculateRetryDelay\<close> lies in the closed interval \<open>[baseDelay, 1.25 * maxDelay]\<close>, and it
  lies in \<open>[baseDelay, maxDelay]\<close> whenever the jitter is not positive (a draw of at most
  \<open>0.5\<close>).
\<close>

theorem calculateRetryDelay_amended:
  assumes "0 \<le> baseDelay config" "baseDelay config \<le> maxDelay config" "0 \<le> random" "random < 1"
  shows "baseDelay config \<le> calculateRetryDelay random attempt config \<and>
         calculateRetryDelay random attempt config \<le> 5 / 4 * maxDelay config \<and>
         (random \<le> 1 / 2 \<longrightarrow> calculateRetryDelay random attempt config \<le> maxDelay config)"
proof -
  define ex where "ex = min (baseDelay config * 2 ^ attempt) (maxDelay config)"
  define j where "j = ex * (1 / 4) * (random * 2 - 1)"
  have d: "calculateRetryDelay random attempt config = max (baseDelay config) (ex + j)"
    by (simp add: calculateRetryDelay_def Let_def ex_def j_def)
  have ex0: "0 \<le> ex" using assms by (simp add: ex_def)
  have exm: "ex \<le> maxDelay config" by (simp add: ex_def)
  have "ex * (1 / 4) * (random * 2 - 1) \<le> ex * (1 / 4) * 1"
    using ex0 assms by (intro mult_left_mono) auto
  then have up: "j \<le> ex / 4" by (simp add: j_def)
  have u1: "ex + j \<le> 5 / 4 * maxDelay config" using up exm by linarith
  have u2: "ex + j \<le> maxDelay config" if "random \<le> 1 / 2"
  proof -
    have "ex * (1 / 4) * (random * 2 - 1) \<le> 0"
      using ex0 that by (intro mult_nonneg_nonpos) auto
    then show ?thesis using exm by (simp add: j_def)
  qed
  have b: "baseDelay config \<le> 5 / 4 * maxDelay config" using assms by linarith
  have c1: "baseDelay config \<le> max (baseDelay config) (ex + j)" by simp
  have c2: "max (baseDelay config) (ex + j) \<le> 5 / 4 * maxDelay config"
    using b u1 by (rule max.boundedI)
  have c3: "max (baseDelay config) (ex + j) \<le> maxDelay config" if "random \<le> 1 / 2"
    using assms(2) u2 [OF that] by (rule max.boundedI)
  show ?thesis unfolding d using c1 c2 c3 by blast
qed

theorem calculateRetryDelay_amended_witness:
  "0 \<le> baseDelay DEFAULT_RETRY_CONFIG \<and>
   baseDelay DEFAULT_RETRY_CONFIG \<le> maxDelay DEFAULT_RETRY_CONFIG \<and>
   (0::real) \<le> 1 / 4 \<and> (1 / 4 :: real) < 1 \<and> (1 / 4 :: real) \<le> 1 / 2 \<and>
   calculateRetryDelay (1 / 4) 2 DEFAULT_RETRY_CONFIG = 3500 \<and>
   baseDelay DEFAULT_RETRY_CONFIG \<le> calculateRetryDelay (1 / 4) 2 DEFAULT_RETRY_CONFIG \<and>
   calculateRetryDelay (1 / 4) 2 DEFAULT_RETRY_CONFIG \<le> maxDelay DEFAULT_RETRY_CONFIG"
proof -
  have h: "0 \<le> baseDelay DEFAULT_RETRY_CONFIG"
      "baseDelay DEFAULT_RETRY_CONFIG \<le> maxDelay DEFAULT_RETRY_CONFIG"
      "(0::real) \<le> 1 / 4" "(1 / 4 :: real) < 1"
    by (simp_all add: DEFAULT_RETRY_CONFIG_def)
  have v: "calculateRetryDelay (1 / 4) 2 DEFAULT_RETRY_CONFIG = 3500"
    by (simp add: calculateRetryDelay_def DEFAULT_RETRY_CONFIG_def Let_def)
  show ?thesis
    using h v calculateRetryDelay_amended [OF h, of 2] by simp
qed

lemma retryLoop_stops:
  assumes k: "int k \<le> maxRetries config"
    and before: "\<forall>i<k. \<exists>e'. operation i = Inl e' \<and> shouldRetry e'"
    and at: "operation k = Inl e"
    and stop: "\<not> shouldRetry e \<or> int k = maxRetries config"
    and a: "a \<le> k"
  shows "retryLoop config operation a prev = (Inl (Some e), Suc k)"
  using a
proof (induction "k - a" arbitrary: a prev)
  case 0
  then have "a = k" by simp
  then show ?case using k at stop by (subst retryLoop.simps) auto
next
  case (Suc n)
  then have lt: "a < k" by simp
  then obtain e' where e': "operation a = Inl e'" "shouldRetry e'" using before by blast
  have "int a < maxRetries config" using lt k by simp
  moreover have "retryLoop config operation (Suc a) (Some e') = (Inl (Some e), Suc k)"
    using Suc lt by (intro Suc.hyps) auto
  ultimately show ?case using e' by (subst retryLoop.simps) simp
qed

text \<open>
  Claim C4, as stated, fails: the failure that reaches the caller is a new error whose text
  quotes the message of the last underlying error; the error itself is not attached (there
  is no cause), so its code and status are lost. Two different underlying errors with the
  same message give the same failure.
\<close>

theorem retryOperation_cause_counterexample:
  "\<lparr>code = Some (NumV 403), status = None, message = Some ''Forbidden''\<rparr>
     \<noteq> \<lparr>code = Some (NumV 404), status = None, message = Some ''Forbidden''\<rparr> \<and>
   retryOperation DEFAULT_RETRY_CONFIG
     (\<lambda>i. Inl \<lparr>code = Some (NumV 403), status = None, message = Some ''Forbidden''\<rparr> :: apiError + unit)
   = retryOperation DEFAULT_RETRY_CONFIG
     (\<lambda>i. Inl \<lparr>code = Some (NumV 404), status = None, message = Some ''Forbidden''\<rparr>)"
  by code_simp

text \<open>
  Claim C4, amended: when the attempts \<open>0 .. k-1\<close> fail with retryable errors and attempt
  \<open>k \<le> maxRetries\<close> fails with an error that is not retryable, or is the last one the budget
  allows, \<^verbatim>\<open>retryOperation\<close> makes no further call (the operation has run \<open>k + 1\<close> times)
  and propagates a new failure to the caller whose message quotes the message of that last
  underlying error; nothing else of the underlying error is carried.
\<close>

theorem retryOperation_amended:
  assumes "int k \<le> maxRetries config"
    and "\<forall>i<k. \<exists>e'. operation i = Inl e' \<and> shouldRetry e'"
    and "operation k = Inl e"
    and "\<not> shouldRetry e \<or> int k = maxRetries config"
  shows "retryOperation config operation =
           (Inl (Error (failureMessage config e)), Suc k)"
proof -
  have "retryLoop config operation 0 None = (Inl (Some e), Suc k)"
    using assms by (intro retryLoop_stops) auto
  then show ?thesis by (simp add: retryOperation_def)
qed

theorem retryOperation_amended_witness:
  "int 1 \<le> maxRetries DEFAULT_RETRY_CONFIG \<and>
   shouldRetry \<lparr>code = Some (NumV 503), status = None, message = Some ''Service down''\<rparr> \<and>
   \<not> shouldRetry \<lparr>code = Some (NumV 403), status = None, message = Some ''Forbidden''\<rparr> \<and>
   retryOperation DEFAULT_RETRY_CONFIG
     (\<lambda>i. if i = 0
          then Inl \<lparr>code = Some (NumV 503), status = None, message = Some ''Service down''\<rparr>
          else (Inl \<lparr>code = Some (NumV 403), status = None, message = Some ''Forbidden''\<rparr>
                  :: apiError + unit))
   = (Inl (Error ''Operation failed after 4 attempts. Last error: Forbidden''), 2)"
proof -
  let ?e0 = "\<lparr>code = Some (NumV 503), status = None, message = Some ''Service down''\<rparr>"
  let ?e1 = "\<lparr>code = Some (NumV 403), status = None, message = Some ''Forbidden''\<rparr>"
  let ?op = "\<lambda>i::nat. if i = 0 then Inl ?e0 else (Inl ?e1 :: apiError + unit)"
  have k: "int 1 \<le> maxRetries DEFAULT_RETRY_CONFIG"
    by (simp add: DEFAULT_RETRY_CONFIG_def)
  have r0: "shouldRetry ?e0" by code_simp
  have r1: "\<not> shouldRetry ?e1" by code_simp
  have before: "\<forall>i<1. \<exists>e'. ?op i = Inl e' \<and> shouldRetry e'"
    using r0 by simp
  have at: "?op 1 = Inl ?e1" by simp
  have stop: "\<not> shouldRetry ?e1 \<or> int 1 = maxRetries DEFAULT_RETRY_CONFIG"
    using r1 by simp
  have msg: "failureMessage DEFAULT_RETRY_CONFIG ?e1 =
      ''Operation failed after 4 attempts. Last error: Forbidden''"
    by code_simp
  show ?thesis
    using k r0 r1 retryOperation_amended [OF k before at stop] msg by simp
qed

section \<open>Properties of normalizeDate\<close>

lemma digit_not_space: "isDigit c \<Longrightarrow> \<not> isSpace c"
  by (auto simp: isDigit_def isSpace_def)

lemma trim_id:
  assumes "s \<noteq> []" "\<not> isSpace (hd s)" "\<not> isSpace (last s)"
  shows "trim s = s"
proof -
  have "dropWhile isSpace s = s" using assms by (cases s) auto
  moreover have "dropWhile isSpace (rev s) = rev s"
    using assms by (cases "rev s") (auto simp: hd_rev [symmetric])
  ultimately show ?thesis by (simp add: trim_def)
qed

lemma canonicalShape_trim:
  assumes "canonicalShape s"
  shows "trim s = s"
proof -
  have len: "length s = 10" using assms by (simp add: canonicalShape_def)
  then have ne: "s \<noteq> []" by auto
  have "hd s \<in> set (take 4 s)" using len by (cases s) auto
  then have "isDigit (hd s)" using assms by (auto simp: canonicalShape_def list_all_iff)
  moreover have "last s \<in> set (drop 8 s)"
  proof -
    have "drop 8 s \<noteq> []" using len by simp
    then have "last (drop 8 s) \<in> set (drop 8 s)" by (rule last_in_set)
    moreover have "last (drop 8 s) = last s" using len by (simp add: last_drop)
    ultimately show ?thesis by simp
  qed
  then have "isDigit (last s)" using assms by (auto simp: canonicalShape_def list_all_iff)
  ultimately show ?thesis using ne by (intro trim_id digit_not_space)
qed

lemma canonicalShape_not_longer: "canonicalShape s \<Longrightarrow> \<not> canonicalShape (s @ ''T00:00:00.000Z'')"
  by (simp add: canonicalShape_def)

lemma dateValid_canonical:
  assumes "canonicalShape s"
  shows "dateValid h s = isoLegal h (fieldsOf s)"
    and "dateValid h (s @ ''T00:00:00.000Z'') = isoLegal h (fieldsOf s)"
proof -
  show "dateValid h s = isoLegal h (fieldsOf s)"
    using assms by (simp add: dateValid_def isoFields_def)
  have "length s = 10" using assms by (simp add: canonicalShape_def)
  then have "take 10 (s @ ''T00:00:00.000Z'') = s" "drop 10 (s @ ''T00:00:00.000Z'') = ''T00:00:00.000Z''"
    by simp_all
  then have "isoFields (s @ ''T00:00:00.000Z'') = Some (fieldsOf s)"
    using assms canonicalShape_not_longer [OF assms] by (simp add: isoFields_def)
  then show "dateValid h (s @ ''T00:00:00.000Z'') = isoLegal h (fieldsOf s)"
    by (simp add: dateValid_def)
qed

lemma normalizeDate_canonical:
  assumes "canonicalShape s"
  shows "normalizeDate h s = (if isoLegal h (fieldsOf s) then s else [])"
proof -
  have "s \<noteq> []" using assms by (auto simp: canonicalShape_def)
  then show ?thesis
    using assms canonicalShape_trim [OF assms] dateValid_canonical [OF assms, of h]
    by (simp add: normalizeDate_def Let_def)
qed

lemma calendarDate_isoLegal: "calendarDate d \<Longrightarrow> isoLegal h d"
  by (auto simp: calendarDate_def isoLegal_def daysInMonth_def split: if_splits)

text \<open>
  Claim C6: \<^verbatim>\<open>normalizeDate("2024-13-40")\<close> is the empty string, on every host: the text
  has the canonical shape, its month is illegal, so neither \<^verbatim>\<open>Date\<close> is valid.
\<close>

theorem normalizeDate_invalid_calendar_date: "normalizeDate h ''2024-13-40'' = []"
proof -
  have c: "canonicalShape ''2024-13-40''" by code_simp
  have f: "fieldsOf ''2024-13-40'' = \<lparr>year = 2024, month = 13, day = 40\<rparr>" by code_simp
  have "\<not> isoLegal h \<lparr>year = 2024, month = 13, day = 40\<rparr>" by (simp add: isoLegal_def)
  then show ?thesis using normalizeDate_canonical [OF c, of h] f by simp
qed

text \<open>
  What the two calls of the example below do on any host: the first text is an ISO
  date-time in local time, in the year 99, and its year is written without padding; the
  result has no canonical shape and is no ISO form, so the second call returns what the
  fallback parser of the host makes of it.
\<close>

lemma normalizeDate_year_99:
  assumes "otherValid h ''0099-01-01T12:00:00''"
    and "localFields h ''0099-01-01T12:00:00'' = \<lparr>year = 99, month = 1, day = 1\<rparr>"
  shows "normalizeDate h ''0099-01-01T12:00:00'' = ''99-01-01''"
proof -
  have t: "trim ''0099-01-01T12:00:00'' = ''0099-01-01T12:00:00''" by code_simp
  have c: "\<not> canonicalShape ''0099-01-01T12:00:00''" by code_simp
  have i: "isoFields ''0099-01-01T12:00:00'' = None" by code_simp
  have f: "formatYMD \<lparr>year = 99, month = 1, day = 1\<rparr> = ''99-01-01''" by code_simp
  show ?thesis using assms t c i f by (simp add: normalizeDate_def dateValid_def)
qed

lemma normalizeDate_two_digit_year:
  "normalizeDate h ''99-01-01'' =
     (if otherValid h ''99-01-01'' then formatYMD (localFields h ''99-01-01'') else [])"
proof -
  have t: "trim ''99-01-01'' = ''99-01-01''" by code_simp
  have c: "\<not> canonicalShape ''99-01-01''" by code_simp
  have i: "isoFields ''99-01-01'' = None" by code_simp
  show ?thesis using t c i by (simp add: normalizeDate_def dateValid_def)
qed

text \<open>
  A text of canonical shape that is a calendar date is returned as it is, on every host.
\<close>

lemma normalizeDate_fixpoint:
  assumes "canonicalShape y" and "calendarDate (fieldsOf y)"
  shows "normalizeDate h y = y"
  using assms by (simp add: normalizeDate_canonical calendarDate_isoLegal)

text \<open>
  Claim C3 holds of the format the code documents and is broken by a slip in the code.
  \<^verbatim>\<open>normalizeDate\<close> is documented to normalise to \<^verbatim>\<open>YYYY-MM-DD\<close>, and it pads month and
  day, but it interpolates the year unpadded. For \<^verbatim>\<open>0099-01-01T12:00:00\<close>, a date in the year
  99, it returns \<^verbatim>\<open>99-01-01\<close>, which is not of the canonical shape; normalising that
  again gives \<^verbatim>\<open>1999-01-01\<close> on Node, so \<^verbatim>\<open>normalizeDate(normalizeDate(x))\<close> differs from
  \<^verbatim>\<open>normalizeDate(x)\<close> although \<^verbatim>\<open>normalizeDate(x)\<close> succeeded. The padded text
  \<^verbatim>\<open>0099-01-01\<close> is of canonical shape and is a fixpoint on every host, so with the year
  padded the same input would satisfy the claim.
\<close>

theorem normalizeDate_unpadded_year:
  "normalizeDate nodeHost ''0099-01-01T12:00:00'' = ''99-01-01'' \<and>
   normalizeDate nodeHost ''0099-01-01T12:00:00'' \<noteq> [] \<and>
   \<not> canonicalShape (normalizeDate nodeHost ''0099-01-01T12:00:00'') \<and>
   normalizeDate nodeHost (normalizeDate nodeHost ''0099-01-01T12:00:00'') = ''1999-01-01'' \<and>
   normalizeDate nodeHost (normalizeDate nodeHost ''0099-01-01T12:00:00'')
     \<noteq> normalizeDate nodeHost ''0099-01-01T12:00:00'' \<and>
   canonicalShape ''0099-01-01'' \<and>
   normalizeDate h ''0099-01-01'' = ''0099-01-01''"
proof -
  have run: "normalizeDate nodeHost ''0099-01-01T12:00:00'' = ''99-01-01'' \<and>
     normalizeDate nodeHost ''0099-01-01T12:00:00'' \<noteq> [] \<and>
     \<not> canonicalShape (normalizeDate nodeHost ''0099-01-01T12:00:00'') \<and>
     normalizeDate nodeHost (normalizeDate nodeHost ''0099-01-01T12:00:00'') = ''1999-01-01'' \<and>
     normalizeDate nodeHost (normalizeDate nodeHost ''0099-01-01T12:00:00'')
       \<noteq> normalizeDate nodeHost ''0099-01-01T12:00:00''"
    by code_simp
  have c: "canonicalShape ''0099-01-01''" by code_simp
  have d: "calendarDate (fieldsOf ''0099-01-01'')" by code_simp
  have fp: "normalizeDate h ''0099-01-01'' = ''0099-01-01''"
    using c d by (rule normalizeDate_fixpoint)
  from run c fp show ?thesis by blast
qed

section \<open>Properties of the lock manager and the reconciliation engine\<close>

text \<open>
  Claim C7: when a lock file exists, \<^verbatim>\<open>acquireLock\<close> looks at its age. If the age exceeds
  30 minutes, the stale file is unlinked, a new lock record (process id, time, sheet name)
  is written, and the acquisition succeeds. If the age is at most 30 minutes, the
  acquisition fails with the contention error, whose text names the age in seconds, and
  the lock file stays as it was.
\<close>

theorem acquireLock_existing_lock:
  assumes "lockSlot w = Some (mtime, held)"
  shows
    "(now wr - mtime > 30 * 60 * 1000 \<longrightarrow>
        fst (acquireLock wr w) = Inr () \<and>
        lockSlot (snd (acquireLock wr w)) =
          Some (now wr, \<lparr>pid = processPid wr, timestamp = now wr, sheet = sheetName wr\<rparr>) \<and>
        newEffects w (snd (acquireLock wr w)) =
          [LockAccess, LockStat, LockUnlink,
           LockWriteFile \<lparr>pid = processPid wr, timestamp = now wr, sheet = sheetName wr\<rparr>]) \<and>
     (now wr - mtime \<le> 30 * 60 * 1000 \<longrightarrow>
        fst (acquireLock wr w) =
          Inl (Error (''Another writer process is running (lock age: '' @
                      showInt ((now wr - mtime + 500) div 1000) @
                      ''s). Please wait or remove '' @ lockFile wr)) \<and>
        lockSlot (snd (acquireLock wr w)) = lockSlot w \<and>
        newEffects w (snd (acquireLock wr w)) = [LockAccess, LockStat])"
  using assms
  by (simp add: acquireLock_def writeLock_def emit_def contentionMessage_def newEffects_def Let_def)

theorem acquireLock_existing_lock_witness:
  "fst (acquireLock sampleWriter \<lparr>lockSlot = Some (0, heldLock), trace = []\<rparr>) = Inr () \<and>
   lockSlot (snd (acquireLock sampleWriter \<lparr>lockSlot = Some (0, heldLock), trace = []\<rparr>)) =
     Some (2400000, \<lparr>pid = 7, timestamp = 2400000, sheet = ''T''\<rparr>) \<and>
   fst (acquireLock sampleWriter \<lparr>lockSlot = Some (1800000, heldLock), trace = []\<rparr>) =
     Inl (Error ''Another writer process is running (lock age: 600s). Please wait or remove .writer-lock-S-T'') \<and>
   lockSlot (snd (acquireLock sampleWriter \<lparr>lockSlot = Some (1800000, heldLock), trace = []\<rparr>)) =
     Some (1800000, heldLock)"
proof -
  have stale: "lockSlot \<lparr>lockSlot = Some (0, heldLock), trace = []\<rparr> = Some (0, heldLock)"
    by simp
  have fresh: "lockSlot \<lparr>lockSlot = Some (1800000, heldLock), trace = []\<rparr> = Some (1800000, heldLock)"
    by simp
  have n: "now sampleWriter = 2400000" "processPid sampleWriter = 7"
      "sheetName sampleWriter = ''T''" "lockFile sampleWriter = ''.writer-lock-S-T''"
    by (simp_all add: sampleWriter_def)
  have s: "showInt 600 = ''600''" by code_simp
  show ?thesis
    using acquireLock_existing_lock [OF stale, of sampleWriter]
          acquireLock_existing_lock [OF fresh, of sampleWriter] n s
    by simp
qed

text \<open>
  The positions \<^verbatim>\<open>findRowsToDelete\<close> collects are row numbers of one snapshot, each at most
  once. So the ranges the engine hands to \<^verbatim>\<open>deleteRows\<close> are pairwise disjoint and in
  descending order.
\<close>

lemma rowsToRecordsFrom_numbers:
  "sorted_wrt (<) (map rowNumber (rowsToRecordsFrom i grid headers)) \<and>
   (\<forall>r \<in> set (rowsToRecordsFrom i grid headers). i < rowNumber r)"
proof (induction grid arbitrary: i)
  case Nil
  show ?case by simp
next
  case (Cons row rest)
  have ih: "sorted_wrt (<) (map rowNumber (rowsToRecordsFrom (i + 1) rest headers))"
      "\<forall>r \<in> set (rowsToRecordsFrom (i + 1) rest headers). i + 1 < rowNumber r"
    using Cons.IH [of "i + 1"] by simp_all
  show ?case using ih by (auto simp: less_imp_le)
qed

lemma findRowsToDelete_distinct:
  "distinct (findRowsToDelete m (rowsToRecords grid headers) datesToUpdate)"
proof -
  have "sorted_wrt (<) (map rowNumber (rowsToRecords grid headers))"
    using rowsToRecordsFrom_numbers by (simp add: rowsToRecords_def)
  then have "distinct (map rowNumber (rowsToRecords grid headers))"
    by (simp add: strict_sorted_iff)
  then have "distinct (map rowNumber (filter
       (\<lambda>record. normalizeDate (dateHost m) (getRecordDate m (data record)) \<in> set datesToUpdate
            \<and> rowNumber record \<noteq> 0) (rowsToRecords grid headers)))"
    by (rule distinct_map_filter)
  then have "distinct (map (\<lambda>record. int (rowNumber record)) (filter
       (\<lambda>record. normalizeDate (dateHost m) (getRecordDate m (data record)) \<in> set datesToUpdate
            \<and> rowNumber record \<noteq> 0) (rowsToRecords grid headers)))"
    by (simp add: distinct_map inj_on_def comp_def)
  then show ?thesis by (simp add: findRowsToDelete_def sortDescending_def)
qed

lemma deleted_ranges_descending:
  "descending (groupConsecutiveRanges (findRowsToDelete m (rowsToRecords grid headers) datesToUpdate)) \<and>
   pairwise_disjoint (groupConsecutiveRanges (findRowsToDelete m (rowsToRecords grid headers) datesToUpdate))"
  using groupConsecutiveRanges_descending [OF findRowsToDelete_distinct] descending_disjoint
  by blast

lemma andThen_InrE:
  assumes "andThen first k w = (Inr v, w')"
  obtains u w'' where "first w = (Inr u, w'')" "k u w'' = (Inr v, w')"
  using assms by (auto simp: andThen_def split: prod.splits sum.splits)

lemma performFullRefresh_dry:
  "dryRun wr \<Longrightarrow> performFullRefresh wr incoming w = (Inr (fullRefreshStats incoming), w)"
  by (simp add: performFullRefresh_def whenever_def andThen_def succeed_def fullRefreshStats_def Let_def)

lemma performFullRefresh_result:
  assumes "performFullRefresh wr incoming w = (Inr stats, w')"
  shows "stats = fullRefreshStats incoming"
proof -
  from assms show ?thesis
    unfolding performFullRefresh_def Let_def
    by (elim andThen_InrE) (simp add: succeed_def fullRefreshStats_def)
qed

lemma performIncrementalUpdate_dry:
  assumes "dryRun wr"
  shows "performIncrementalUpdate wr incoming w =
           (case snapshot wr of
              Inl e \<Rightarrow> (Inl e, emit GetAllData w)
            | Inr g \<Rightarrow> (Inr (plannedStats (mapperOf wr) incoming g), emit GetAllData w))"
proof (cases "snapshot wr")
  case (Inl e)
  then show ?thesis by (simp add: performIncrementalUpdate_def andThen_def getAllData_def)
next
  case (Inr g)
  show ?thesis
  proof (cases "length g = 0")
    case True
    then show ?thesis using Inr assms
      by (simp add: performIncrementalUpdate_def andThen_def getAllData_def
          performFullRefresh_dry plannedStats_def)
  next
    case False
    then show ?thesis using Inr assms
      by (simp add: performIncrementalUpdate_def andThen_def getAllData_def whenever_def
          succeed_def plannedStats_def Let_def)
  qed
qed

lemma performIncrementalUpdate_result:
  assumes "performIncrementalUpdate wr incoming w = (Inr stats, w')"
  shows "\<exists>g. snapshot wr = Inr g \<and> stats = plannedStats (mapperOf wr) incoming g"
proof -
  from assms obtain g w1 where
    g: "getAllData wr w = (Inr g, w1)" and
    rest: "(if length g = 0 then performFullRefresh wr incoming
       else
         let existingHeaders = hd g;
             existingRecords = rowsToRecords g existingHeaders;
             datesToUpdate = extractDatesFromRecords (mapperOf wr) incoming;
             rowsToDelete = findRowsToDelete (mapperOf wr) existingRecords datesToUpdate;
             deletedCount = (if length rowsToDelete > 0 then int (length rowsToDelete) else 0);
             newFields = collectAllFields incoming;
             finalColumns = mergeColumns existingHeaders newFields;
             addedColumns = filter (\<lambda>col. col \<notin> set existingHeaders) finalColumns;
             currentDataRows = int (length existingRecords) - deletedCount;
             requiredRows = currentDataRows + int (length incoming) + 1
         in
         andThen
           (whenever (length rowsToDelete > 0 \<and> \<not> dryRun wr)
              (deleteRows (groupConsecutiveRanges rowsToDelete))) (\<lambda>_.
         andThen
           (whenever (length addedColumns > 0 \<and> \<not> dryRun wr)
              (addColumns wr addedColumns (length existingHeaders))) (\<lambda>_.
         andThen
           (whenever (\<not> dryRun wr)
              (andThen (getAvailableRows wr) (\<lambda>available.
                 if requiredRows > int available \<or> available = 0 then addRowsToSheet 5000
                 else succeed ()))) (\<lambda>_.
         andThen
           (whenever (length incoming > 0 \<and> \<not> dryRun wr)
              (andThen
                 (appendRows wr (recordsToRows (mapperOf wr) incoming finalColumns) ''USER_ENTERED'')
                 (\<lambda>_. let dateColumnIndices = findDateColumnIndices (mapperOf wr) finalColumns
                      in if length dateColumnIndices > 0 then formatDateColumns dateColumnIndices
                         else succeed ()))) (\<lambda>_.
         succeed \<lparr>totalRecords = currentDataRows + int (length incoming),
                newRecords = int (length incoming), updatedRecords = 0,
                deletedRecords = deletedCount, newColumns = addedColumns\<rparr>))))) w1 = (Inr stats, w')"
    unfolding performIncrementalUpdate_def by (elim andThen_InrE)
  from g have snap: "snapshot wr = Inr g" by (simp add: getAllData_def)
  show ?thesis
  proof (cases "length g = 0")
    case True
    with rest have "performFullRefresh wr incoming w1 = (Inr stats, w')" by simp
    then have "stats = fullRefreshStats incoming" by (rule performFullRefresh_result)
    then show ?thesis using snap True by (simp add: plannedStats_def)
  next
    case False
    with rest have "stats = plannedStats (mapperOf wr) incoming g"
      unfolding Let_def
      by (simp only: if_False) (elim andThen_InrE, auto simp: succeed_def plannedStats_def Let_def)
    then show ?thesis using snap by simp
  qed
qed

lemma performFullRefresh_real:
  assumes "\<not> dryRun wr"
    and "remoteFails wr (ReplaceAllData
           (map CText (collectAllFields incoming) #
              recordsToRows (mapperOf wr) incoming (collectAllFields incoming))
           (length (collectAllFields incoming))) = None"
  shows "fst (performFullRefresh wr incoming w) = Inr (fullRefreshStats incoming)"
  using assms
  by (simp add: performFullRefresh_def whenever_def andThen_def succeed_def replaceAllData_def
      fallible_def formatDateColumns_def advisory_def fullRefreshStats_def Let_def)

text \<open>
  Claim C8: when \<^verbatim>\<open>getAllData\<close> returns an empty grid, an incremental update is the full
  refresh of the same batch (after the one read); whatever statistics it returns satisfy
  \<open>newRecords = totalRecords\<close>, both the size of the batch, and \<open>deletedRecords = 0\<close>; and
  it does return them, in a dry run always and otherwise when the replacing write does not
  fail. This holds for every batch, so for every non-empty one.
\<close>

theorem incrementalUpdate_emptyStore:
  assumes "snapshot wr = Inr []"
  shows "performIncrementalUpdate wr incoming w = performFullRefresh wr incoming (emit GetAllData w) \<and>
         (\<forall>stats w'. performIncrementalUpdate wr incoming w = (Inr stats, w') \<longrightarrow>
            newRecords stats = totalRecords stats \<and> totalRecords stats = int (length incoming) \<and>
            deletedRecords stats = 0) \<and>
         (dryRun wr \<or>
          remoteFails wr (ReplaceAllData
             (map CText (collectAllFields incoming) #
                recordsToRows (mapperOf wr) incoming (collectAllFields incoming))
             (length (collectAllFields incoming))) = None
          \<longrightarrow> fst (performIncrementalUpdate wr incoming w) = Inr (fullRefreshStats incoming))"
proof -
  have eq: "performIncrementalUpdate wr incoming w = performFullRefresh wr incoming (emit GetAllData w)"
    using assms by (simp add: performIncrementalUpdate_def andThen_def getAllData_def)
  have st: "newRecords stats = totalRecords stats \<and> totalRecords stats = int (length incoming) \<and>
            deletedRecords stats = 0"
    if "performIncrementalUpdate wr incoming w = (Inr stats, w')" for stats w'
  proof -
    from that have "stats = fullRefreshStats incoming"
      unfolding eq by (rule performFullRefresh_result)
    then show ?thesis by (simp add: fullRefreshStats_def)
  qed
  have ok: "fst (performIncrementalUpdate wr incoming w) = Inr (fullRefreshStats incoming)"
    if "dryRun wr \<or>
          remoteFails wr (ReplaceAllData
             (map CText (collectAllFields incoming) #
                recordsToRows (mapperOf wr) incoming (collectAllFields incoming))
             (length (collectAllFields incoming))) = None"
    using that unfolding eq
    by (cases "dryRun wr") (simp_all add: performFullRefresh_dry performFullRefresh_real)
  show ?thesis using eq st ok by blast
qed

theorem incrementalUpdate_emptyStore_witness:
  "snapshot (sampleWriter\<lparr>snapshot := Inr []\<rparr>) = Inr [] \<and>
   performIncrementalUpdate (sampleWriter\<lparr>snapshot := Inr []\<rparr>) sampleBatch
       \<lparr>lockSlot = None, trace = []\<rparr> =
     (Inr \<lparr>totalRecords = 1, newRecords = 1, updatedRecords = 0, deletedRecords = 0,
           newColumns = [''date'', ''clicks'']\<rparr>,
      \<lparr>lockSlot = None,
         trace = [GetAllData,
                  ReplaceAllData [[CText ''date'', CText ''clicks''],
                                  [CText ''2024-01-01'', CNumber 3]] 2,
                  FormatDateColumns [0]]\<rparr>) \<and>
   performFullRefresh (sampleWriter\<lparr>snapshot := Inr []\<rparr>) sampleBatch
       (emit GetAllData \<lparr>lockSlot = None, trace = []\<rparr>) =
     performIncrementalUpdate (sampleWriter\<lparr>snapshot := Inr []\<rparr>) sampleBatch
       \<lparr>lockSlot = None, trace = []\<rparr>"
proof -
  have h: "snapshot (sampleWriter\<lparr>snapshot := Inr []\<rparr>) = Inr []" by simp
  have v: "performIncrementalUpdate (sampleWriter\<lparr>snapshot := Inr []\<rparr>) sampleBatch
       \<lparr>lockSlot = None, trace = []\<rparr> =
     (Inr \<lparr>totalRecords = 1, newRecords = 1, updatedRecords = 0, deletedRecords = 0,
           newColumns = [''date'', ''clicks'']\<rparr>,
      \<lparr>lockSlot = None,
         trace = [GetAllData,
                  ReplaceAllData [[CText ''date'', CText ''clicks''],
                                  [CText ''2024-01-01'', CNumber 3]] 2,
                  FormatDateColumns [0]]\<rparr>)"
    by code_simp
  show ?thesis
    using h v incrementalUpdate_emptyStore [OF h, of sampleBatch "\<lparr>lockSlot = None, trace = []\<rparr>"]
    by simp
qed

lemma writeData_dry:
  assumes "dryRun wr"
  shows "writeData wr w =
           (dryRunOutcome wr,
            if (case loadData wr of Inl e \<Rightarrow> True | Inr incoming \<Rightarrow> length incoming = 0 \<or> fullRefresh wr)
            then w else emit GetAllData w)"
proof (cases "loadData wr")
  case (Inl e)
  then show ?thesis using assms
    by (simp add: writeData_def writeBody_def whenever_def andThen_def succeed_def
        tryFinally_def dryRunOutcome_def)
next
  case (Inr incoming)
  show ?thesis
  proof (cases "length incoming = 0")
    case True
    then show ?thesis using assms Inr
      by (simp add: writeData_def writeBody_def whenever_def andThen_def succeed_def
          tryFinally_def dryRunOutcome_def throw_def)
  next
    case False
    show ?thesis
    proof (cases "fullRefresh wr")
      case True
      then show ?thesis using assms Inr False
        by (simp add: writeData_def writeBody_def whenever_def andThen_def succeed_def
            tryFinally_def dryRunOutcome_def performFullRefresh_dry)
    next
      case nf: False
      then show ?thesis using assms Inr False
        by (simp add: writeData_def writeBody_def whenever_def andThen_def succeed_def
            tryFinally_def dryRunOutcome_def performIncrementalUpdate_dry split: sum.splits)
    qed
  qed
qed

lemma tryFinally_InrE:
  assumes "tryFinally body cleanup w = (Inr v, w')"
  obtains w'' where "body w = (Inr v, w'')"
  using assms by (auto simp: tryFinally_def split: prod.splits)

lemma writeBody_result:
  assumes "writeBody wr w = (Inr stats, w')"
  shows "dryRunOutcome wr = Inr stats"
proof -
  from assms obtain incoming w1 where
    l: "(loadData wr, w) = (Inr incoming, w1)" and
    b: "(if length incoming = 0 then throw (Error noDataMessage)
         else if fullRefresh wr then performFullRefresh wr incoming
         else performIncrementalUpdate wr incoming) w1 = (Inr stats, w')"
    unfolding writeBody_def by (elim andThen_InrE)
  from l have ld: "loadData wr = Inr incoming" by simp
  show ?thesis
  proof (cases "length incoming = 0")
    case True
    with b show ?thesis by (simp add: throw_def)
  next
    case False
    show ?thesis
    proof (cases "fullRefresh wr")
      case True
      with b False have "performFullRefresh wr incoming w1 = (Inr stats, w')" by simp
      then have "stats = fullRefreshStats incoming" by (rule performFullRefresh_result)
      then show ?thesis using ld False True by (simp add: dryRunOutcome_def)
    next
      case nf: False
      with b False have "performIncrementalUpdate wr incoming w1 = (Inr stats, w')" by simp
      then obtain g where "snapshot wr = Inr g" "stats = plannedStats (mapperOf wr) incoming g"
        using performIncrementalUpdate_result by blast
      then show ?thesis using ld False nf by (simp add: dryRunOutcome_def)
    qed
  qed
qed

lemma writeData_result:
  assumes "writeData wr w = (Inr stats, w')"
  shows "dryRunOutcome wr = Inr stats"
proof -
  from assms obtain u w1 where "tryFinally (writeBody wr) (\<lambda>w. if dryRun wr then w else releaseLock w) w1 = (Inr stats, w')"
    unfolding writeData_def by (elim andThen_InrE)
  then obtain w2 where "writeBody wr w1 = (Inr stats, w2)" by (elim tryFinally_InrE)
  then show ?thesis by (rule writeBody_result)
qed

lemma dryRunOutcome_ignores_dryRun: "dryRunOutcome (wr\<lparr>dryRun := b\<rparr>) = dryRunOutcome wr"
  by (simp add: dryRunOutcome_def split: sum.splits)

text \<open>
  Claim C9, as stated, fails in its last part: not every input batch yields statistics in
  dry-run mode. The guard on the empty batch comes before the mode is looked at, so a dry
  run on an empty batch throws "No data to write" and returns no statistics.
\<close>

theorem dryRun_statistics_counterexample:
  "dryRun (sampleWriter\<lparr>dryRun := True, loadData := Inr []\<rparr>) \<and>
   loadData (sampleWriter\<lparr>dryRun := True, loadData := Inr []\<rparr>) = Inr [] \<and>
   fst (writeData (sampleWriter\<lparr>dryRun := True, loadData := Inr []\<rparr>)
          \<lparr>lockSlot = None, trace = []\<rparr>) = Inl (Error noDataMessage)"
  by code_simp

text \<open>
  Claim C9, amended: in dry-run mode, for every input batch and every world,
  \<^verbatim>\<open>writeData\<close> leaves the lock file as it is and adds to the trace no file operation on
  the lock and no mutating \<^verbatim>\<open>SheetService\<close> call (at most the one read of the snapshot).
  Its result is the planned outcome: for every non-empty batch, in full-refresh mode or
  when the snapshot can be read, statistics of the usual shape; and these are the
  statistics the real run returns, whenever the real run on the same input and snapshot
  returns any.
\<close>

theorem dryRun_amended:
  assumes "dryRun wr"
  shows "lockSlot (snd (writeData wr w)) = lockSlot w \<and>
         trace (snd (writeData wr w)) = trace w @ newEffects w (snd (writeData wr w)) \<and>
         list_all (\<lambda>e. \<not> isMutatingCall e \<and> \<not> isLockEffect e) (newEffects w (snd (writeData wr w))) \<and>
         fst (writeData wr w) = dryRunOutcome wr \<and>
         (loadData wr = Inr incoming \<and> incoming \<noteq> [] \<and> (fullRefresh wr \<or> snapshot wr = Inr g)
            \<longrightarrow> (\<exists>stats. fst (writeData wr w) = Inr stats)) \<and>
         (\<forall>w0 stats w1. writeData (wr\<lparr>dryRun := False\<rparr>) w0 = (Inr stats, w1)
              \<longrightarrow> fst (writeData wr w) = Inr stats)"
proof -
  have real: "fst (writeData wr w) = Inr stats"
    if "writeData (wr\<lparr>dryRun := False\<rparr>) w0 = (Inr stats, w1)" for w0 stats w1
  proof -
    from that have "dryRunOutcome (wr\<lparr>dryRun := False\<rparr>) = Inr stats" by (rule writeData_result)
    then show ?thesis by (simp add: writeData_dry [OF assms] dryRunOutcome_ignores_dryRun)
  qed
  have some: "\<exists>stats. fst (writeData wr w) = Inr stats"
    if "loadData wr = Inr incoming" "incoming \<noteq> []" "fullRefresh wr \<or> snapshot wr = Inr g"
    using that by (auto simp: writeData_dry [OF assms] dryRunOutcome_def)
  have effects: "lockSlot (snd (writeData wr w)) = lockSlot w \<and>
         trace (snd (writeData wr w)) = trace w @ newEffects w (snd (writeData wr w)) \<and>
         list_all (\<lambda>e. \<not> isMutatingCall e \<and> \<not> isLockEffect e) (newEffects w (snd (writeData wr w))) \<and>
         fst (writeData wr w) = dryRunOutcome wr"
    by (simp add: writeData_dry [OF assms] newEffects_def emit_def)
  show ?thesis using real some effects by blast
qed

theorem dryRun_amended_witness:
  "dryRun (sampleWriter\<lparr>dryRun := True\<rparr>) \<and>
   writeData (sampleWriter\<lparr>dryRun := True\<rparr>) \<lparr>lockSlot = Some (2000000, heldLock), trace = []\<rparr> =
     (Inr \<lparr>totalRecords = 2, newRecords = 1, updatedRecords = 0, deletedRecords = 2,
           newColumns = [''clicks'']\<rparr>,
      \<lparr>lockSlot = Some (2000000, heldLock), trace = [GetAllData]\<rparr>) \<and>
   fst (writeData sampleWriter \<lparr>lockSlot = None, trace = []\<rparr>) =
     fst (writeData (sampleWriter\<lparr>dryRun := True\<rparr>)
            \<lparr>lockSlot = Some (2000000, heldLock), trace = []\<rparr>)"
proof -
  have h: "dryRun (sampleWriter\<lparr>dryRun := True\<rparr>)" by simp
  have v: "writeData (sampleWriter\<lparr>dryRun := True\<rparr>)
             \<lparr>lockSlot = Some (2000000, heldLock), trace = []\<rparr> =
     (Inr \<lparr>totalRecords = 2, newRecords = 1, updatedRecords = 0, deletedRecords = 2,
           newColumns = [''clicks'']\<rparr>,
      \<lparr>lockSlot = Some (2000000, heldLock), trace = [GetAllData]\<rparr>)"
    by code_simp
  have r: "fst (writeData sampleWriter \<lparr>lockSlot = None, trace = []\<rparr>) =
     Inr \<lparr>totalRecords = 2, newRecords = 1, updatedRecords = 0, deletedRecords = 2,
          newColumns = [''clicks'']\<rparr>"
    by code_simp
  show ?thesis
    using h v r
      dryRun_amended [OF h, of "\<lparr>lockSlot = Some (2000000, heldLock), trace = []\<rparr>"]
    by simp
qed

lemma acquireLock_acquirable:
  assumes "acquirable wr w"
  shows "\<exists>ops. acquireLock wr w =
           (Inr (), \<lparr>lockSlot = Some (now wr, \<lparr>pid = processPid wr, timestamp = now wr, sheet = sheetName wr\<rparr>),
                     trace = trace w @ ops\<rparr>) \<and> list_all isLockEffect ops \<and>
           LockWriteFile \<lparr>pid = processPid wr, timestamp = now wr, sheet = sheetName wr\<rparr> \<in> set ops"
proof (cases "lockSlot w")
  case None
  then show ?thesis
    by (intro exI [of _ "[LockAccess, LockWriteFile \<lparr>pid = processPid wr, timestamp = now wr, sheet = sheetName wr\<rparr>]"])
       (simp add: acquireLock_def writeLock_def emit_def Let_def)
next
  case (Some held)
  obtain mtime d where h: "held = (mtime, d)" by (cases held)
  with Some assms have "now wr - mtime > 30 * 60 * 1000" by (simp add: acquirable_def)
  then show ?thesis using Some h
    by (intro exI [of _ "[LockAccess, LockStat, LockUnlink, LockWriteFile \<lparr>pid = processPid wr, timestamp = now wr, sheet = sheetName wr\<rparr>]"])
       (simp add: acquireLock_def writeLock_def emit_def Let_def)
qed

lemma writeData_contention:
  assumes "\<not> dryRun wr" "\<not> acquirable wr w"
  shows "\<exists>mtime held. lockSlot w = Some (mtime, held) \<and>
           writeData wr w =
             (Inl (Error (contentionMessage (now wr - mtime) (lockFile wr))),
              w\<lparr>trace := trace w @ [LockAccess, LockStat]\<rparr>)"
proof (cases "lockSlot w")
  case None
  then show ?thesis using assms by (simp add: acquirable_def)
next
  case (Some slot)
  obtain mtime d where h: "slot = (mtime, d)" by (cases slot)
  with Some assms have "\<not> now wr - mtime > 30 * 60 * 1000" by (simp add: acquirable_def)
  then show ?thesis using Some h assms(1)
    by (simp add: writeData_def whenever_def andThen_def acquireLock_def emit_def Let_def)
qed

text \<open>
  Claim C10, as stated, fails: the lock is taken before the batch is read, so a real run on
  an empty batch that finds a fresh lock of another writer throws the contention error, not
  "No data to write", and that lock stays in place.
\<close>

theorem emptyBatch_contention_counterexample:
  "loadData (sampleWriter\<lparr>loadData := Inr []\<rparr>) = Inr [] \<and>
   \<not> dryRun (sampleWriter\<lparr>loadData := Inr []\<rparr>) \<and>
   writeData (sampleWriter\<lparr>loadData := Inr []\<rparr>)
       \<lparr>lockSlot = Some (1800000, heldLock), trace = []\<rparr> =
     (Inl (Error ''Another writer process is running (lock age: 600s). Please wait or remove .writer-lock-S-T''),
      \<lparr>lockSlot = Some (1800000, heldLock), trace = [LockAccess, LockStat]\<rparr>) \<and>
   fst (writeData (sampleWriter\<lparr>loadData := Inr []\<rparr>)
          \<lparr>lockSlot = Some (1800000, heldLock), trace = []\<rparr>)
     \<noteq> Inl (Error ([CHR 0xE2, CHR 0x9D, CHR 0x8C] @ '' No data to write''))"
  by code_simp

text \<open>
  Claim C10, amended: for an empty input batch \<^verbatim>\<open>writeData\<close> always raises an error
  without performing any write to the store (the run adds nothing to the trace but file
  operations on the lock). In dry-run mode, and in a real run that acquires the lock (there
  is no lock file, or a stale one), the error is the one with the text "No data to write"
  after a cross mark; a dry run leaves the world untouched; such a real run has written the
  lock file, ends by unlinking it, and leaves no lock file behind. A real run that finds a
  fresh lock raises the contention error naming the lock's age and leaves that lock as it
  is.
\<close>

theorem emptyBatch_amended:
  assumes "loadData wr = Inr []"
  shows "(\<exists>e. fst (writeData wr w) = Inl e) \<and>
         trace (snd (writeData wr w)) = trace w @ newEffects w (snd (writeData wr w)) \<and>
         list_all isLockEffect (newEffects w (snd (writeData wr w))) \<and>
         (dryRun wr \<or> acquirable wr w \<longrightarrow>
            fst (writeData wr w) =
              Inl (Error ([CHR 0xE2, CHR 0x9D, CHR 0x8C] @ '' No data to write''))) \<and>
         (dryRun wr \<longrightarrow> snd (writeData wr w) = w) \<and>
         (\<not> dryRun wr \<and> acquirable wr w \<longrightarrow>
            lockSlot (snd (writeData wr w)) = None \<and>
            LockWriteFile \<lparr>pid = processPid wr, timestamp = now wr, sheet = sheetName wr\<rparr>
              \<in> set (newEffects w (snd (writeData wr w))) \<and>
            last (newEffects w (snd (writeData wr w))) = LockUnlink) \<and>
         (\<not> dryRun wr \<and> \<not> acquirable wr w \<longrightarrow>
            (\<exists>mtime held. lockSlot w = Some (mtime, held) \<and>
               fst (writeData wr w) =
                 Inl (Error (''Another writer process is running (lock age: '' @
                             showInt ((now wr - mtime + 500) div 1000) @
                             ''s). Please wait or remove '' @ lockFile wr))) \<and>
            lockSlot (snd (writeData wr w)) = lockSlot w \<and>
            newEffects w (snd (writeData wr w)) = [LockAccess, LockStat])"
proof (cases "dryRun wr")
  case True
  then show ?thesis using assms
    by (simp add: writeData_dry dryRunOutcome_def newEffects_def noDataMessage_def)
next
  case False
  show ?thesis
  proof (cases "acquirable wr w")
    case True
    then obtain ops where
      a: "acquireLock wr w =
           (Inr (), \<lparr>lockSlot = Some (now wr, \<lparr>pid = processPid wr, timestamp = now wr, sheet = sheetName wr\<rparr>),
                     trace = trace w @ ops\<rparr>)" and lk: "list_all isLockEffect ops"
      and wf: "LockWriteFile \<lparr>pid = processPid wr, timestamp = now wr, sheet = sheetName wr\<rparr> \<in> set ops"
      using acquireLock_acquirable by blast
    have "writeData wr w = (Inl (Error ([CHR 0xE2, CHR 0x9D, CHR 0x8C] @ '' No data to write'')),
        \<lparr>lockSlot = None, trace = trace w @ ops @ [LockUnlink]\<rparr>)"
      using False assms a
      by (simp add: writeData_def writeBody_def whenever_def andThen_def tryFinally_def
          throw_def releaseLock_def emit_def noDataMessage_def)
    then show ?thesis using False True lk wf by (simp add: newEffects_def)
  next
    case na: False
    from writeData_contention [OF False na] obtain mtime held where
      "lockSlot w = Some (mtime, held)"
      "writeData wr w = (Inl (Error (contentionMessage (now wr - mtime) (lockFile wr))),
            w\<lparr>trace := trace w @ [LockAccess, LockStat]\<rparr>)" by blast
    then show ?thesis using False na by (simp add: newEffects_def contentionMessage_def)
  qed
qed

theorem emptyBatch_amended_witness:
  "loadData (sampleWriter\<lparr>loadData := Inr []\<rparr>) = Inr [] \<and>
   \<not> dryRun (sampleWriter\<lparr>loadData := Inr []\<rparr>) \<and>
   acquirable (sampleWriter\<lparr>loadData := Inr []\<rparr>) \<lparr>lockSlot = Some (0, heldLock), trace = []\<rparr> \<and>
   writeData (sampleWriter\<lparr>loadData := Inr []\<rparr>) \<lparr>lockSlot = Some (0, heldLock), trace = []\<rparr> =
     (Inl (Error ([CHR 0xE2, CHR 0x9D, CHR 0x8C] @ '' No data to write'')),
      \<lparr>lockSlot = None,
         trace = [LockAccess, LockStat, LockUnlink,
                  LockWriteFile \<lparr>pid = 7, timestamp = 2400000, sheet = ''T''\<rparr>, LockUnlink]\<rparr>) \<and>
   \<not> acquirable (sampleWriter\<lparr>loadData := Inr []\<rparr>)
       \<lparr>lockSlot = Some (1800000, heldLock), trace = []\<rparr> \<and>
   lockSlot (snd (writeData (sampleWriter\<lparr>loadData := Inr []\<rparr>)
                    \<lparr>lockSlot = Some (1800000, heldLock), trace = []\<rparr>)) =
     Some (1800000, heldLock)"
proof -
  have l: "loadData (sampleWriter\<lparr>loadData := Inr []\<rparr>) = Inr []" by simp
  have n: "\<not> dryRun (sampleWriter\<lparr>loadData := Inr []\<rparr>)" by (simp add: sampleWriter_def)
  have a: "acquirable (sampleWriter\<lparr>loadData := Inr []\<rparr>)
             \<lparr>lockSlot = Some (0, heldLock), trace = []\<rparr>"
    by (simp add: acquirable_def sampleWriter_def)
  have b: "\<not> acquirable (sampleWriter\<lparr>loadData := Inr []\<rparr>)
             \<lparr>lockSlot = Some (1800000, heldLock), trace = []\<rparr>"
    by (simp add: acquirable_def sampleWriter_def)
  have v: "writeData (sampleWriter\<lparr>loadData := Inr []\<rparr>)
             \<lparr>lockSlot = Some (0, heldLock), trace = []\<rparr> =
     (Inl (Error ([CHR 0xE2, CHR 0x9D, CHR 0x8C] @ '' No data to write'')),
      \<lparr>lockSlot = None,
         trace = [LockAccess, LockStat, LockUnlink,
                  LockWriteFile \<lparr>pid = 7, timestamp = 2400000, sheet = ''T''\<rparr>, LockUnlink]\<rparr>)"
    by code_simp
  show ?thesis
    using l n a b v
      emptyBatch_amended [OF l, of "\<lparr>lockSlot = Some (0, heldLock), trace = []\<rparr>"]
      emptyBatch_amended [OF l, of "\<lparr>lockSlot = Some (1800000, heldLock), trace = []\<rparr>"]
    by simp
qed

end
